theory Spec2Isabelle
  imports Main
begin

section \<open>Stack frame simulation engine (utils/stackSimulator.js)\<close>

text \<open>
  The embedding follows \<^verbatim>\<open>stackSimulator.js\<close> function by function. JavaScript
  values are modelled as follows.
  \<^item> An AST node is \<open>{type, name?, line, children?}\<close>; \<open>id\<close> and \<open>column\<close> are never read
    by the simulator and are left out. A missing \<open>name\<close> is \<open>None\<close>; a missing \<open>children\<close>
    is the empty list, since every read has the form \<^verbatim>\<open>node.children || []\<close> or tests the
    length first.
  \<^item> Arguments, depths, lines and step operands are integers (\<open>int\<close>), taken below \<open>2^53\<close>
    in absolute value, where JavaScript's doubles are exact. Return values, which grow
    beyond that, are computed in double arithmetic: rounded to the nearest double, or
    \<open>+Infinity\<close>. The parameter \<open>maxDepth\<close> is an integer or \<open>NaN\<close>.
  \<^item> Trees are well typed: \<open>type\<close> and \<open>name\<close> are strings, \<open>line\<close> is an integer, \<open>children\<close>
    is a list of nodes.
  \<^item> Strings are \<open>string\<close>, read as ASCII text (C identifiers and literal spellings).
  \<^item> The object \<open>functions\<close> is an association list kept in JavaScript's property
    enumeration order, which both \<^verbatim>\<open>Object.keys\<close> and \<^verbatim>\<open>for ... in\<close> follow.
  \<^item> \<^verbatim>\<open>console.log\<close> calls write diagnostics only and are left out.
\<close>

subsection \<open>Strings and numbers\<close>

definition truthy :: "string option \<Rightarrow> bool" where
  \<comment> \<open>a string value is truthy iff it is present and non-empty\<close>
  "truthy s = (case s of None \<Rightarrow> False | Some t \<Rightarrow> t \<noteq> [])"

definition is_space :: "char \<Rightarrow> bool" where
  \<comment> \<open>ASCII white space and line terminators, as \<^verbatim>\<open>trim\<close> and \<^verbatim>\<open>parseInt\<close> skip them\<close>
  "is_space c = (c \<in> set [CHR 0x09, CHR 0x0A, CHR 0x0B, CHR 0x0C, CHR 0x0D, CHR '' ''])"

definition trim :: "string \<Rightarrow> string" where
  "trim s = rev (dropWhile is_space (rev (dropWhile is_space s)))"

definition lower_char :: "char \<Rightarrow> char" where
  "lower_char c =
     (let n = (of_char c :: nat) in if 65 \<le> n \<and> n \<le> 90 then char_of (n + 32) else c)"

definition toLowerCase :: "string \<Rightarrow> string" where
  "toLowerCase s = map lower_char s"

fun starts_with :: "string \<Rightarrow> string \<Rightarrow> bool" where
  "starts_with s [] = True"
| "starts_with [] (p # ps) = False"
| "starts_with (c # cs) (p # ps) = (c = p \<and> starts_with cs ps)"

fun includes_str :: "string \<Rightarrow> string \<Rightarrow> bool" where
  \<comment> \<open>\<^verbatim>\<open>s.includes(p)\<close>: \<open>p\<close> occurs in \<open>s\<close> as a contiguous substring\<close>
  "includes_str [] p = (p = [])"
| "includes_str (c # cs) p = (starts_with (c # cs) p \<or> includes_str cs p)"

definition digit_char :: "nat \<Rightarrow> char" where
  "digit_char d = ''0123456789'' ! d"

fun show_nat :: "nat \<Rightarrow> string" where
  "show_nat n = (if n < 10 then [digit_char n] else show_nat (n div 10) @ [digit_char (n mod 10)])"

declare show_nat.simps [simp del]

definition show_int :: "int \<Rightarrow> string" where
  \<comment> \<open>the decimal text of an integer, as template literals print a number\<close>
  "show_int i = (if i < 0 then CHR ''-'' # show_nat (nat (- i)) else show_nat (nat i))"

definition digit_value :: "char \<Rightarrow> nat option" where
  \<comment> \<open>value of a digit character in radix up to 16\<close>
  "digit_value c =
     (let n = (of_char c :: nat) in
      if 48 \<le> n \<and> n \<le> 57 then Some (n - 48)
      else if 97 \<le> n \<and> n \<le> 102 then Some (n - 87)
      else if 65 \<le> n \<and> n \<le> 70 then Some (n - 55)
      else None)"

definition radix_digit :: "nat \<Rightarrow> char \<Rightarrow> bool" where
  "radix_digit r c = (case digit_value c of None \<Rightarrow> False | Some d \<Rightarrow> d < r)"

definition radix_value :: "nat \<Rightarrow> string \<Rightarrow> nat" where
  "radix_value r ds = foldl (\<lambda>acc c. acc * r + the (digit_value c)) 0 ds"

definition parseInt :: "string \<Rightarrow> int option" where
  \<comment> \<open>\<^verbatim>\<open>parseInt(s)\<close> without a radix argument; \<open>None\<close> is \<open>NaN\<close>. Leading white space is
      skipped, then an optional sign, then an optional \<open>0x\<close>/\<open>0X\<close> prefix selecting radix 16,
      then the longest run of digits; no digit at all gives \<open>NaN\<close>.\<close>
  "parseInt s =
     (let s1 = dropWhile is_space s;
          neg = (s1 \<noteq> [] \<and> hd s1 = CHR ''-'');
          s2 = (if s1 \<noteq> [] \<and> (hd s1 = CHR ''+'' \<or> hd s1 = CHR ''-'') then tl s1 else s1);
          hex = (starts_with s2 ''0x'' \<or> starts_with s2 ''0X'');
          r = (if hex then 16 else 10);
          s3 = (if hex then drop 2 s2 else s2);
          z = takeWhile (radix_digit r) s3
      in if z = [] then None
         else Some ((if neg then - 1 else 1) * int (radix_value r z)))"

datatype jsnum = Num int | NaN

definition parseInt_num :: "jsnum \<Rightarrow> int option" where
  \<comment> \<open>\<^verbatim>\<open>parseInt\<close> of a number: the argument is converted to its text first, and \<open>NaN\<close>
      prints as \<^verbatim>\<open>NaN\<close>. An integer prints in plain decimal digits below \<open>10^21\<close>, which
      the range of the numbers modelled stays within.\<close>
  "parseInt_num m = parseInt (case m of Num i \<Rightarrow> show_int i | NaN \<Rightarrow> ''NaN'')"

definition gt_num :: "int \<Rightarrow> jsnum \<Rightarrow> bool" where
  \<comment> \<open>\<^verbatim>\<open>depth > maxDepth\<close>; every comparison with \<open>NaN\<close> is false\<close>
  "gt_num d m = (case m of Num i \<Rightarrow> d > i | NaN \<Rightarrow> False)"

subsection \<open>AST nodes and the function table\<close>

datatype node =
  Node (node_type: string) (node_name: "string option") (node_line: int) (children: "node list")

type_synonym callsite = "string \<times> int"
  \<comment> \<open>\<open>{name, line}\<close>\<close>

text \<open>
  Record fields carry a prefix (\<open>func_\<close>, \<open>frame_\<close>, \<open>ev_\<close>) so that the source's variable
  names stay free for variables.
\<close>

record func =
  func_name :: string
  func_line :: int
  func_params :: "string list"
  func_body :: node
  func_isRecursive :: bool
  func_calls :: "callsite list option"

type_synonym functable = "(string \<times> func) list"

definition is_array_index :: "string \<Rightarrow> bool" where
  \<comment> \<open>a canonical numeric string below \<open>2^32 - 1\<close>: such property keys are enumerated
      first, in ascending numeric order\<close>
  "is_array_index k =
     (k \<noteq> [] \<and> list_all (radix_digit 10) k \<and> (k = ''0'' \<or> hd k \<noteq> CHR ''0'')
      \<and> radix_value 10 k < 4294967295)"

fun obj_insert_index :: "string \<Rightarrow> 'v \<Rightarrow> (string \<times> 'v) list \<Rightarrow> (string \<times> 'v) list" where
  "obj_insert_index k v [] = [(k, v)]"
| "obj_insert_index k v ((k', v') # t) =
     (if is_array_index k' \<and> radix_value 10 k' < radix_value 10 k
      then (k', v') # obj_insert_index k v t
      else (k, v) # (k', v') # t)"

definition obj_set :: "(string \<times> 'v) list \<Rightarrow> string \<Rightarrow> 'v \<Rightarrow> (string \<times> 'v) list" where
  \<comment> \<open>\<^verbatim>\<open>obj[k] = v\<close> on a plain object. Assigning to \<open>__proto__\<close> replaces the prototype and
      creates no property (the properties inherited from a function record are never a
      record with \<open>isRecursive\<close> set, nor is any of them called \<open>main\<close>). An existing key keeps
      its place; a new array index is placed among the array indices; any other new key
      goes last.\<close>
  "obj_set t k v =
     (if k = ''__proto__'' then t
      else if k \<in> fst ` set t then map (\<lambda>(k', v'). if k' = k then (k', v) else (k', v')) t
      else if is_array_index k then obj_insert_index k v t
      else t @ [(k, v)])"

definition param_names :: "node list \<Rightarrow> string list" where
  \<comment> \<open>the loop collecting \<open>params\<close> in \<^verbatim>\<open>extractFunctions\<close>\<close>
  "param_names cs =
     map (\<lambda>c. the (node_name c))
       (filter (\<lambda>c. node_type c = ''PARM_DECL'' \<and> truthy (node_name c)) cs)"

fun traverse_extract :: "node \<Rightarrow> functable \<Rightarrow> functable" where
  \<comment> \<open>the inner \<^verbatim>\<open>traverse\<close> of \<^verbatim>\<open>extractFunctions\<close>, the table passed along\<close>
  "traverse_extract (Node ty nm ln cs) functions =
     fold traverse_extract cs
       (if ty = ''FUNCTION_DECL'' \<and> truthy nm
        then obj_set functions (the nm)
               \<lparr>func_name = the nm, func_line = ln, func_params = param_names cs,
                func_body = Node ty nm ln cs, func_isRecursive = False, func_calls = None\<rparr>
        else functions)"

definition extractFunctions :: "node \<Rightarrow> functable" where
  "extractFunctions ast = traverse_extract ast []"

subsection \<open>Resolving callees\<close>

fun searchForName :: "node \<Rightarrow> string option"
  and searchForName_children :: "node list \<Rightarrow> string option" where
  "searchForName (Node ty nm ln cs) =
     (if ty = ''DECL_REF_EXPR'' \<and> truthy nm then nm
      else if truthy nm \<and> trim (the nm) \<noteq> [] then nm
      else searchForName_children cs)"
| "searchForName_children [] = None"
| "searchForName_children (c # cs) =
     (case searchForName c of Some found \<Rightarrow> Some found | None \<Rightarrow> searchForName_children cs)"

definition findCalleeFromFirstChild :: "node \<Rightarrow> string option" where
  "findCalleeFromFirstChild callExprNode =
     (case children callExprNode of [] \<Rightarrow> None | firstChild # _ \<Rightarrow> searchForName firstChild)"

fun traverse_calls :: "string list \<Rightarrow> node \<Rightarrow> callsite list \<times> string list
                        \<Rightarrow> callsite list \<times> string list" where
  \<comment> \<open>the inner \<^verbatim>\<open>traverse\<close> of \<^verbatim>\<open>findAllCalls\<close>; the state is \<open>(calls, seen)\<close>\<close>
  "traverse_calls funcNames (Node ty nm ln cs) (calls, seen) =
     fold (traverse_calls funcNames) cs
       (if ty = ''CALL_EXPR'' then
          (case findCalleeFromFirstChild (Node ty nm ln cs) of
             None \<Rightarrow> (calls, seen)
           | Some calleeName \<Rightarrow>
               if calleeName \<in> set funcNames then
                 (let key = calleeName @ ''-'' @ show_int ln in
                  if key \<notin> set seen then (calls @ [(calleeName, ln)], seen @ [key])
                  else (calls, seen))
               else (calls, seen))
        else (calls, seen))"

definition findAllCalls :: "node \<Rightarrow> string list \<Rightarrow> callsite list" where
  "findAllCalls n funcNames = fst (traverse_calls funcNames n ([], []))"

definition detectRecursiveFunctions :: "functable \<Rightarrow> functable" where
  \<comment> \<open>every record of the table gets its \<open>calls\<close> and its \<open>isRecursive\<close> flag; \<open>funcNames\<close>
      is taken once, before the loop\<close>
  "detectRecursiveFunctions functions =
     (let funcNames = map fst functions in
      map (\<lambda>(funcName, f).
             let calls = findAllCalls (func_body f) funcNames in
             (funcName, f\<lparr>func_isRecursive := (\<exists>c \<in> set calls. fst c = funcName),
                          func_calls := Some calls\<rparr>))
          functions)"

subsection \<open>Return values and step inference\<close>

text \<open>
  Return values are computed in JavaScript's double arithmetic. The operands met here are
  non-negative integers, so a value is an integer or \<open>+Infinity\<close>, and an operation
  returns the double nearest to the exact result, a tie going to the even significand, or
  \<open>+Infinity\<close> when that lies beyond the largest double.
\<close>

datatype number = Finite int | Infinity

function bit_length :: "int \<Rightarrow> nat" where
  \<comment> \<open>the number of binary digits of a positive integer\<close>
  "bit_length m = (if m \<le> 0 then 0 else Suc (bit_length (m div 2)))"
  by pat_completeness auto
termination
  by (relation "measure nat") auto

declare bit_length.simps [simp del]

definition round_double :: "int \<Rightarrow> number" where
  \<comment> \<open>the double nearest to a non-negative integer \<open>m\<close>: the significand keeps 53 binary
      digits, the rest is rounded half to even, and \<open>2^1024\<close> is out of range\<close>
  "round_double m =
     (let k = bit_length m in
      if k \<le> 53 then Finite m
      else
        let e = k - 53;
            q = m div 2 ^ e;
            r = m mod 2 ^ e;
            half = 2 ^ (e - 1);
            q' = (if r > half \<or> (r = half \<and> odd q) then q + 1 else q);
            y = q' * 2 ^ e
        in if y \<ge> 2 ^ 1024 then Infinity else Finite y)"

definition mul_double :: "number \<Rightarrow> int \<Rightarrow> number" where
  \<comment> \<open>\<^verbatim>\<open>result * i\<close> for \<open>result \<ge> 1\<close> and a counter \<open>i \<ge> 2\<close>\<close>
  "mul_double x i = (case x of Finite r \<Rightarrow> round_double (r * i) | Infinity \<Rightarrow> Infinity)"

definition add_double :: "number \<Rightarrow> number \<Rightarrow> number" where
  \<comment> \<open>\<^verbatim>\<open>a + b\<close> for \<open>a, b \<ge> 0\<close>\<close>
  "add_double x y =
     (case x of
        Finite a \<Rightarrow> (case y of Finite b \<Rightarrow> round_double (a + b) | Infinity \<Rightarrow> Infinity)
      | Infinity \<Rightarrow> Infinity)"

function fib_loop :: "int \<Rightarrow> int \<Rightarrow> number \<Rightarrow> number \<Rightarrow> number" where
  \<comment> \<open>\<^verbatim>\<open>for (let i = 2; i <= value; i++) [a, b] = [b, a + b]\<close>, then \<^verbatim>\<open>return b\<close>\<close>
  "fib_loop i v a b = (if i \<le> v then fib_loop (i + 1) v b (add_double a b) else b)"
  by pat_completeness auto
termination
  by (relation "measure (\<lambda>(i, v, a, b). nat (v + 1 - i))") auto

function fact_loop :: "int \<Rightarrow> int \<Rightarrow> number \<Rightarrow> number" where
  \<comment> \<open>\<^verbatim>\<open>for (let i = 2; i <= value; i++) result *= i\<close>, then \<^verbatim>\<open>return result\<close>\<close>
  "fact_loop i v result = (if i \<le> v then fact_loop (i + 1) v (mul_double result i) else result)"
  by pat_completeness auto
termination
  by (relation "measure (\<lambda>(i, v, result). nat (v + 1 - i))") auto

declare fib_loop.simps [simp del] fact_loop.simps [simp del]

definition calculateReturn :: "string \<Rightarrow> int \<Rightarrow> number" where
  "calculateReturn funcName v =
     (let lower = toLowerCase funcName in
      if includes_str lower ''fib'' then
        (if v \<le> 1 then Finite v else fib_loop 2 v (Finite 0) (Finite 1))
      else if includes_str lower ''factorial'' \<or> includes_str lower ''fact'' then
        fact_loop 2 v (Finite 1)
      else Finite v)"

record stepInfo =
  operator :: string
  step_value :: int

definition extractOperator :: "node \<Rightarrow> string" where
  "extractOperator n = ''-''"

fun extractOperand_loop :: "node list \<Rightarrow> int" where
  "extractOperand_loop [] = 1"
| "extractOperand_loop (child # cs) =
     (if node_type child = ''INTEGER_LITERAL'' \<and> truthy (node_name child)
         \<and> parseInt (the (node_name child)) \<noteq> None
      then the (parseInt (the (node_name child)))
      else extractOperand_loop cs)"

definition extractOperand :: "node \<Rightarrow> int" where
  "extractOperand n = extractOperand_loop (children n)"

definition detectRecursiveStep :: "node \<Rightarrow> stepInfo option" where
  \<comment> \<open>\<open>None\<close> is the \<open>null\<close> returned for a call with fewer than two children. The operand
      is a number, so the test \<^verbatim>\<open>operand !== null\<close> always succeeds; what is left of the
      guard is the truthiness of the operator string.\<close>
  "detectRecursiveStep callNode =
     (if length (children callNode) < 2 then None
      else
        let argNode = children callNode ! 1 in
        if node_type argNode = ''BINARY_OPERATOR'' \<and> extractOperator argNode \<noteq> []
        then Some \<lparr>operator = extractOperator argNode, step_value = extractOperand argNode\<rparr>
        else Some \<lparr>operator = ''-'', step_value = 1\<rparr>)"

fun findCallNode :: "string \<Rightarrow> node \<Rightarrow> node option"
  and findCallNode_children :: "string \<Rightarrow> node list \<Rightarrow> node option" where
  "findCallNode recursiveFunc (Node ty nm ln cs) =
     (if ty = ''CALL_EXPR'' \<and> findCalleeFromFirstChild (Node ty nm ln cs) = Some recursiveFunc
      then Some (Node ty nm ln cs)
      else findCallNode_children recursiveFunc cs)"
| "findCallNode_children recursiveFunc [] = None"
| "findCallNode_children recursiveFunc (c # cs) =
     (case findCallNode recursiveFunc c of
        Some found \<Rightarrow> Some found
      | None \<Rightarrow> findCallNode_children recursiveFunc cs)"

subsection \<open>Frames, events and the simulation\<close>

datatype jsval = JNum int | JStr string

record frame =
  frame_name :: string
  frame_line :: int
  frame_depth :: int
  frame_argName :: "string option"
  frame_argValue :: "jsval option"
  frame_returnValue :: "number option"
  frame_isBaseCase :: "bool option"

datatype action = Push | Pop

record event =
  ev_action :: action
  ev_frame :: frame
  ev_stack :: "string list"
  ev_fullStack :: "frame list"
  ev_description :: string
  ev_returnValue :: "number option"

definition nextArg :: "stepInfo \<Rightarrow> int \<Rightarrow> int" where
  \<comment> \<open>the computation of \<open>nextVal\<close>, run only for \<open>argValue > 1\<close>. Division by a zero step
      gives \<open>+Infinity\<close> there, which the safety check replaces like any value
      \<open>\<ge> argValue\<close>.\<close>
  "nextArg stepInfo argValue =
     (let nextVal =
            (if operator stepInfo = ''-'' then argValue - step_value stepInfo
             else if operator stepInfo = ''+'' then argValue + step_value stepInfo
             else if operator stepInfo = ''/'' then
               (if step_value stepInfo = 0 then argValue else argValue div step_value stepInfo)
             else if operator stepInfo = ''*'' then argValue * step_value stepInfo
             else argValue)
      in if nextVal \<ge> argValue \<and> operator stepInfo \<noteq> ''+'' then argValue - 1 else nextVal)"

definition make_frame :: "func \<Rightarrow> string \<Rightarrow> int \<Rightarrow> int \<Rightarrow> frame" where
  \<comment> \<open>\<open>newFrame\<close>; \<^verbatim>\<open>func.params[0] || 'n'\<close> picks the first parameter when there is one\<close>
  "make_frame f funcName argValue depth =
     \<lparr>frame_name = funcName, frame_line = func_line f, frame_depth = depth,
      frame_argName =
        Some (case func_params f of [] \<Rightarrow> ''n'' | p # _ \<Rightarrow> if p = [] then ''n'' else p),
      frame_argValue = Some (JNum argValue),
      frame_returnValue = Some (calculateReturn funcName argValue),
      frame_isBaseCase = None\<rparr>"

definition push_event :: "string \<Rightarrow> int \<Rightarrow> frame \<Rightarrow> frame list \<Rightarrow> event" where
  "push_event funcName argValue newFrame newStack =
     \<lparr>ev_action = Push, ev_frame = newFrame, ev_stack = map frame_name newStack,
      ev_fullStack = newStack,
      ev_description = funcName @ ''('' @ show_int argValue @ '')'',
      ev_returnValue = None\<rparr>"

definition pop_event :: "string \<Rightarrow> int \<Rightarrow> frame \<Rightarrow> bool \<Rightarrow> frame list \<Rightarrow> event" where
  "pop_event funcName argValue newFrame isBaseCase stack =
     \<lparr>ev_action = Pop, ev_frame = newFrame\<lparr>frame_isBaseCase := Some isBaseCase\<rparr>,
      ev_stack = map frame_name stack, ev_fullStack = stack,
      ev_description = ''return from '' @ funcName @ ''('' @ show_int argValue @ '')'',
      ev_returnValue = frame_returnValue newFrame\<rparr>"

function simulateCall ::
  "functable \<Rightarrow> stepInfo \<Rightarrow> jsnum \<Rightarrow> string \<Rightarrow> int \<Rightarrow> int \<Rightarrow> frame list \<Rightarrow> event list
     \<Rightarrow> event list" where
  \<comment> \<open>\<open>functions\<close>, \<open>stepInfo\<close>, \<open>maxDepth\<close> and \<open>trace\<close> are the variables the closure captures;
      the array \<open>trace\<close> it appends to is passed in and returned\<close>
  "simulateCall functions stepInfo maxDepth funcName argValue depth stack trace =
     (if gt_num depth maxDepth then trace
      else if length stack > 20 then trace
      else (case map_of functions funcName of
        None \<Rightarrow> trace
      | Some f \<Rightarrow>
          (let newFrame = make_frame f funcName argValue depth;
               newStack = stack @ [newFrame];
               trace1 = trace @ [push_event funcName argValue newFrame newStack];
               isBaseCase = (argValue \<le> 1);
               trace2 =
                 (if func_isRecursive f \<and> \<not> isBaseCase
                  then simulateCall functions stepInfo maxDepth funcName
                         (nextArg stepInfo argValue) (depth + 1) newStack trace1
                  else trace1)
           in trace2 @ [pop_event funcName argValue newFrame isBaseCase stack])))"
  by pat_completeness auto
termination
  by (relation "measure (\<lambda>(functions, stepInfo, maxDepth, funcName, argValue, depth, stack, trace).
                   21 - length stack)") auto

declare simulateCall.simps [simp del]

definition main_push :: "int \<Rightarrow> event" where
  "main_push ln =
     \<lparr>ev_action = Push,
      ev_frame = \<lparr>frame_name = ''main'', frame_line = ln, frame_depth = 0, frame_argName = None,
                  frame_argValue = Some (JStr []), frame_returnValue = None,
                  frame_isBaseCase = None\<rparr>,
      ev_stack = [''main''],
      ev_fullStack = [\<lparr>frame_name = ''main'', frame_line = ln, frame_depth = 0,
                       frame_argName = None, frame_argValue = None, frame_returnValue = None,
                       frame_isBaseCase = None\<rparr>],
      ev_description = ''main()'', ev_returnValue = None\<rparr>"

definition main_pop :: "int \<Rightarrow> event" where
  "main_pop ln =
     \<lparr>ev_action = Pop,
      ev_frame = \<lparr>frame_name = ''main'', frame_line = ln, frame_depth = 0, frame_argName = None,
                  frame_argValue = None, frame_returnValue = None, frame_isBaseCase = None\<rparr>,
      ev_stack = [], ev_fullStack = [],
      ev_description = ''return 0'', ev_returnValue = Some (Finite 0)\<rparr>"

definition analyse :: "node \<Rightarrow> functable" where
  \<comment> \<open>the two opening statements shared by \<^verbatim>\<open>simulateRecursion\<close> and \<^verbatim>\<open>getRecursiveInfo\<close>\<close>
  "analyse ast = detectRecursiveFunctions (extractFunctions ast)"

definition first_recursive :: "functable \<Rightarrow> (string \<times> func) option" where
  \<comment> \<open>the \<^verbatim>\<open>for (const funcName in functions)\<close> loop that stops at the first flagged record\<close>
  "first_recursive functions = find (\<lambda>(funcName, f). func_isRecursive f) functions"

definition detect_stepInfo :: "functable \<Rightarrow> string option \<Rightarrow> stepInfo" where
  \<comment> \<open>\<open>stepInfo\<close> after the block that finds the call node again\<close>
  "detect_stepInfo functions recursiveFunc =
     (case recursiveFunc of
        None \<Rightarrow> \<lparr>operator = ''-'', step_value = 1\<rparr>
      | Some rf \<Rightarrow>
          (case map_of functions rf of
             None \<Rightarrow> \<lparr>operator = ''-'', step_value = 1\<rparr>
           | Some f \<Rightarrow>
               (case findCallNode rf (func_body f) of
                  None \<Rightarrow> \<lparr>operator = ''-'', step_value = 1\<rparr>
                | Some callNode \<Rightarrow>
                    (case detectRecursiveStep callNode of
                       None \<Rightarrow> \<lparr>operator = ''-'', step_value = 1\<rparr>
                     | Some detected \<Rightarrow> detected))))"

definition simulateRecursion :: "node option \<Rightarrow> jsnum \<Rightarrow> event list" where
  "simulateRecursion ast maxDepth =
     (case ast of
        None \<Rightarrow> []
      | Some a \<Rightarrow>
          (let functions = analyse a;
               recursiveFunc = map_option fst (first_recursive functions);
               stepInfo = detect_stepInfo functions recursiveFunc
           in (case recursiveFunc of
                 Some rf \<Rightarrow>
                   (let initialVal = (case parseInt_num maxDepth of None \<Rightarrow> 5 | Some i \<Rightarrow> i)
                    in simulateCall functions stepInfo maxDepth rf initialVal 0 [] [])
               | None \<Rightarrow>
                   (case map_of functions ''main'' of
                      Some m \<Rightarrow> [main_push (func_line m), main_pop (func_line m)]
                    | None \<Rightarrow> []))))"


record info =
  info_name :: string
  info_params :: "string list"
  info_line :: int

definition getRecursiveInfo :: "node option \<Rightarrow> info option" where
  "getRecursiveInfo ast =
     (case ast of
        None \<Rightarrow> None
      | Some a \<Rightarrow>
          (case first_recursive (analyse a) of
             None \<Rightarrow> None
           | Some (funcName, f) \<Rightarrow>
               Some \<lparr>info_name = funcName, info_params = func_params f, info_line = func_line f\<rparr>))"

subsection \<open>The caller (StackVisualizer)\<close>



section \<open>Notions used to state the properties\<close>

subsection \<open>Balanced traces\<close>

text \<open>
  A frame occurrence is identified by function name, declaration line and depth. Replaying a
  trace keeps the stack of the occurrences that are open. A push must add its own frame on
  top of the current stack and carry that stack as its snapshot; a pop must find its own
  frame on top of a non-empty stack and carry the rest as its snapshot. The replay fails
  (\<open>None\<close>) as soon as an event does not fit, in particular when a pop meets the empty stack.
\<close>

type_synonym frame_id = "string \<times> int \<times> int"

definition frame_id :: "frame \<Rightarrow> frame_id" where
  "frame_id f = (frame_name f, frame_line f, frame_depth f)"

fun replay :: "frame_id list \<Rightarrow> event list \<Rightarrow> frame_id list option" where
  "replay st [] = Some st"
| "replay st (e # es) =
     (case ev_action e of
        Push \<Rightarrow>
          if map frame_id (ev_fullStack e) = st @ [frame_id (ev_frame e)]
          then replay (st @ [frame_id (ev_frame e)]) es else None
      | Pop \<Rightarrow>
          if st \<noteq> [] \<and> last st = frame_id (ev_frame e)
             \<and> map frame_id (ev_fullStack e) = butlast st
          then replay (butlast st) es else None)"

definition balanced :: "event list \<Rightarrow> bool" where
  "balanced t = (replay [] t = Some [])"

definition pushes :: "event list \<Rightarrow> nat" where
  "pushes t = length (filter (\<lambda>e. ev_action e = Push) t)"

definition pops :: "event list \<Rightarrow> nat" where
  "pops t = length (filter (\<lambda>e. ev_action e = Pop) t)"

definition event_frames :: "event \<Rightarrow> frame list" where
  \<comment> \<open>every stack frame an event contains: its own and those of its snapshot\<close>
  "event_frames e = ev_frame e # ev_fullStack e"

definition depth_within :: "int \<Rightarrow> event list \<Rightarrow> bool" where
  "depth_within d t = list_all (\<lambda>e. list_all (\<lambda>f. frame_depth f \<le> d) (event_frames e)) t"

definition stack_within :: "nat \<Rightarrow> event list \<Rightarrow> bool" where
  "stack_within k t = list_all (\<lambda>e. length (ev_fullStack e) \<le> k) t"

subsection \<open>Trees, declared functions, call sites\<close>

fun nodes_preorder :: "node \<Rightarrow> node list" where
  "nodes_preorder (Node ty nm ln cs) = Node ty nm ln cs # concat (map nodes_preorder cs)"

definition function_names :: "node \<Rightarrow> string list" where
  \<comment> \<open>the names of the function declarations of a tree, in the order of a depth-first walk\<close>
  "function_names ast =
     map (\<lambda>n. the (node_name n))
       (filter (\<lambda>n. node_type n = ''FUNCTION_DECL'' \<and> truthy (node_name n)) (nodes_preorder ast))"

definition has_self_recursive :: "node \<Rightarrow> bool" where
  \<comment> \<open>some record of the analysed table is flagged recursive\<close>
  "has_self_recursive ast = list_ex (\<lambda>(funcName, f). func_isRecursive f) (analyse ast)"

definition names_callee :: "node \<Rightarrow> bool" where
  \<comment> \<open>a node at which the callee search stops\<close>
  "names_callee n =
     (node_type n = ''DECL_REF_EXPR'' \<and> truthy (node_name n)
      \<or> truthy (node_name n) \<and> trim (the (node_name n)) \<noteq> [])"

definition callee_by_preorder :: "node \<Rightarrow> string option" where
  "callee_by_preorder callExprNode =
     (case children callExprNode of
        [] \<Rightarrow> None
      | firstChild # args \<Rightarrow>
          (case find names_callee (nodes_preorder firstChild) of
             None \<Rightarrow> None
           | Some n \<Rightarrow> node_name n))"

definition callee_reference_first :: "node \<Rightarrow> string option" where
  \<comment> \<open>the resolution rule as the specification words it: a declaration reference anywhere
      in the first child's subtree takes precedence; only when there is none does any node
      with a non-empty name count\<close>
  "callee_reference_first callExprNode =
     (case children callExprNode of
        [] \<Rightarrow> None
      | firstChild # args \<Rightarrow>
          (case find (\<lambda>n. node_type n = ''DECL_REF_EXPR'' \<and> truthy (node_name n))
                  (nodes_preorder firstChild) of
             Some n \<Rightarrow> node_name n
           | None \<Rightarrow>
               (case find (\<lambda>n. truthy (node_name n)) (nodes_preorder firstChild) of
                  Some n \<Rightarrow> node_name n
                | None \<Rightarrow> None)))"

definition first_self_call :: "string \<Rightarrow> node \<Rightarrow> node option" where
  \<comment> \<open>the first call site of a function body, in depth-first order, that resolves to the
      function itself\<close>
  "first_self_call funcName n =
     find (\<lambda>c. node_type c = ''CALL_EXPR'' \<and> findCalleeFromFirstChild c = Some funcName)
       (nodes_preorder n)"

definition literal_operands :: "node \<Rightarrow> int list" where
  \<comment> \<open>the values of the integer-literal children of an argument node\<close>
  "literal_operands argNode =
     List.map_filter
       (\<lambda>c. if node_type c = ''INTEGER_LITERAL'' \<and> truthy (node_name c)
            then parseInt (the (node_name c)) else None)
       (children argNode)"

definition step_rule :: "node \<Rightarrow> stepInfo" where
  \<comment> \<open>the step rule of a call site as the specification words it\<close>
  "step_rule callNode =
     (case children callNode of
        callee # argNode # rest \<Rightarrow>
          if node_type argNode = ''BINARY_OPERATOR'' then
            (case literal_operands argNode of
               v # _ \<Rightarrow> \<lparr>operator = ''-'', step_value = v\<rparr>
             | [] \<Rightarrow> \<lparr>operator = ''-'', step_value = 1\<rparr>)
          else \<lparr>operator = ''-'', step_value = 1\<rparr>
      | _ \<Rightarrow> \<lparr>operator = ''-'', step_value = 1\<rparr>)"

fun fib :: "nat \<Rightarrow> int" where
  "fib 0 = 0"
| "fib (Suc 0) = 1"
| "fib (Suc (Suc n)) = fib (Suc n) + fib n"

fun fib_pair :: "nat \<Rightarrow> int \<times> int" where
  \<comment> \<open>two consecutive Fibonacci numbers, for evaluation in linear time\<close>
  "fib_pair 0 = (0, 1)"
| "fib_pair (Suc n) = (case fib_pair n of (a, b) \<Rightarrow> (b, a + b))"

definition product_to :: "int \<Rightarrow> int" where
  \<comment> \<open>the product \<open>1 \<cdot> 2 \<cdots> n\<close>, which is 1 for \<open>n \<le> 1\<close>\<close>
  "product_to n = prod (\<lambda>k. k) {1..n}"

subsection \<open>Example trees\<close>

text \<open>
  The tree of the program below, in the shape the parser delivers (one node per cursor,
  \<open>name\<close> holding the spelling, empty for statements and operators):
  \<^verbatim>\<open>
   3  int factorial(int n) {
   4      if (n <= 1) {
   5          return 1;
   6      }
   7      return n * factorial(n - 1);
   8  }
  10  int main() {
  11      int num = 5;
  12      int result = factorial(num);
  14      return 0;
  15  }
  \<close>
\<close>

definition leaf :: "string \<Rightarrow> string \<Rightarrow> int \<Rightarrow> node" where
  "leaf ty nm ln = Node ty (Some nm) ln []"

definition ref_to :: "string \<Rightarrow> int \<Rightarrow> node" where
  "ref_to nm ln = Node ''UNEXPOSED_EXPR'' (Some nm) ln [leaf ''DECL_REF_EXPR'' nm ln]"

definition factorial_decl :: node where
  "factorial_decl =
     Node ''FUNCTION_DECL'' (Some ''factorial'') 3
       [leaf ''PARM_DECL'' ''n'' 3,
        Node ''COMPOUND_STMT'' (Some []) 3
          [Node ''IF_STMT'' (Some []) 4
             [Node ''BINARY_OPERATOR'' (Some []) 4
                [ref_to ''n'' 4, leaf ''INTEGER_LITERAL'' ''1'' 4],
              Node ''COMPOUND_STMT'' (Some []) 4
                [Node ''RETURN_STMT'' (Some []) 5 [leaf ''INTEGER_LITERAL'' ''1'' 5]]],
           Node ''RETURN_STMT'' (Some []) 7
             [Node ''BINARY_OPERATOR'' (Some []) 7
                [ref_to ''n'' 7,
                 Node ''CALL_EXPR'' (Some ''factorial'') 7
                   [ref_to ''factorial'' 7,
                    Node ''BINARY_OPERATOR'' (Some []) 7
                      [ref_to ''n'' 7, leaf ''INTEGER_LITERAL'' ''1'' 7]]]]]]"

definition main_decl :: node where
  "main_decl =
     Node ''FUNCTION_DECL'' (Some ''main'') 10
       [Node ''COMPOUND_STMT'' (Some []) 10
          [Node ''DECL_STMT'' (Some []) 11
             [Node ''VAR_DECL'' (Some ''num'') 11 [leaf ''INTEGER_LITERAL'' ''5'' 11]],
           Node ''DECL_STMT'' (Some []) 12
             [Node ''VAR_DECL'' (Some ''result'') 12
                [Node ''CALL_EXPR'' (Some ''factorial'') 12
                   [ref_to ''factorial'' 12, ref_to ''num'' 12]]],
           Node ''RETURN_STMT'' (Some []) 14 [leaf ''INTEGER_LITERAL'' ''0'' 14]]]"

definition factorial_ast :: node where
  "factorial_ast = Node ''TRANSLATION_UNIT'' (Some ''input.c'') 0 [factorial_decl, main_decl]"

definition main_only_ast :: node where
  \<comment> \<open>\<^verbatim>\<open>int main() { return 0; }\<close>\<close>
  "main_only_ast =
     Node ''TRANSLATION_UNIT'' (Some ''input.c'') 0
       [Node ''FUNCTION_DECL'' (Some ''main'') 1
          [Node ''COMPOUND_STMT'' (Some []) 1
             [Node ''RETURN_STMT'' (Some []) 1 [leaf ''INTEGER_LITERAL'' ''0'' 1]]]]"


definition member_call :: node where
  \<comment> \<open>the call \<^verbatim>\<open>obj.fn(3)\<close>: the callee expression is a member reference named \<open>fn\<close> over a
      declaration reference to \<open>obj\<close>\<close>
  "member_call =
     Node ''CALL_EXPR'' (Some ''fn'') 5
       [Node ''MEMBER_REF_EXPR'' (Some ''fn'') 5 [leaf ''DECL_REF_EXPR'' ''obj'' 5],
        leaf ''INTEGER_LITERAL'' ''3'' 5]"

definition deep_stack :: "frame list" where
  \<comment> \<open>a stack of 21 frames\<close>
  "deep_stack = replicate 21 (ev_frame (main_pop 1))"

definition helper_only_ast :: node where
  \<comment> \<open>\<^verbatim>\<open>int helper(int x) { return x; }\<close>\<close>
  "helper_only_ast =
     Node ''TRANSLATION_UNIT'' (Some ''input.c'') 0
       [Node ''FUNCTION_DECL'' (Some ''helper'') 1
          [leaf ''PARM_DECL'' ''x'' 1,
           Node ''COMPOUND_STMT'' (Some []) 1
             [Node ''RETURN_STMT'' (Some []) 1 [ref_to ''x'' 1]]]]"

definition halve_ast :: node where
  \<comment> \<open>\<^verbatim>\<open>int halve(int n) { if (n <= 1) return 0; return 1 + halve(n / 2); }\<close> on lines 1 to 3\<close>
  "halve_ast =
     Node ''TRANSLATION_UNIT'' (Some ''input.c'') 0
       [Node ''FUNCTION_DECL'' (Some ''halve'') 1
          [leaf ''PARM_DECL'' ''n'' 1,
           Node ''COMPOUND_STMT'' (Some []) 1
             [Node ''IF_STMT'' (Some []) 2
                [Node ''BINARY_OPERATOR'' (Some []) 2
                   [ref_to ''n'' 2, leaf ''INTEGER_LITERAL'' ''1'' 2],
                 Node ''RETURN_STMT'' (Some []) 2 [leaf ''INTEGER_LITERAL'' ''0'' 2]],
              Node ''RETURN_STMT'' (Some []) 3
                [Node ''BINARY_OPERATOR'' (Some []) 3
                   [leaf ''INTEGER_LITERAL'' ''1'' 3,
                    Node ''CALL_EXPR'' (Some ''halve'') 3
                      [ref_to ''halve'' 3,
                       Node ''BINARY_OPERATOR'' (Some []) 3
                         [ref_to ''n'' 3, leaf ''INTEGER_LITERAL'' ''2'' 3]]]]]]]"

definition halve_record :: func where
  \<comment> \<open>the record of \<open>halve\<close> in the analysed table\<close>
  "halve_record = the (map_of (analyse halve_ast) ''halve'')"

subsection \<open>Projections of a trace\<close>

definition main_line :: "node \<Rightarrow> int" where
  \<comment> \<open>the line the table records for \<open>main\<close>\<close>
  "main_line ast = (case map_of (analyse ast) ''main'' of None \<Rightarrow> 0 | Some m \<Rightarrow> func_line m)"

definition pop_returns :: "event list \<Rightarrow> number option list" where
  "pop_returns t = map ev_returnValue (filter (\<lambda>e. ev_action e = Pop) t)"

definition push_arguments :: "event list \<Rightarrow> jsval option list" where
  "push_arguments t =
     map (\<lambda>e. frame_argValue (ev_frame e)) (filter (\<lambda>e. ev_action e = Push) t)"

definition pop_arguments :: "event list \<Rightarrow> jsval option list" where
  "pop_arguments t =
     map (\<lambda>e. frame_argValue (ev_frame e)) (filter (\<lambda>e. ev_action e = Pop) t)"

section \<open>Properties\<close>

subsection \<open>Printing and parsing integers\<close>

lemma digit_chars:
  "list_all (\<lambda>d. digit_value (digit_char d) = Some d \<and> \<not> is_space (digit_char d)
      \<and> digit_char d \<noteq> CHR ''-'' \<and> digit_char d \<noteq> CHR ''+''
      \<and> digit_char d \<noteq> CHR ''x'' \<and> digit_char d \<noteq> CHR ''X'') [0..<10]"
  by code_simp

lemma digit_char_plain:
  assumes "d < 10"
  shows "digit_value (digit_char d) = Some d" "\<not> is_space (digit_char d)"
    "digit_char d \<noteq> CHR ''-''" "digit_char d \<noteq> CHR ''+''"
    "digit_char d \<noteq> CHR ''x''" "digit_char d \<noteq> CHR ''X''"
proof -
  have "d \<in> set [0..<10]" using assms by simp
  with digit_chars show "digit_value (digit_char d) = Some d" "\<not> is_space (digit_char d)"
    "digit_char d \<noteq> CHR ''-''" "digit_char d \<noteq> CHR ''+''"
    "digit_char d \<noteq> CHR ''x''" "digit_char d \<noteq> CHR ''X''"
    unfolding list_all_iff by blast+
qed

lemma radix_digit_digit_char: "d < 10 \<Longrightarrow> radix_digit 10 (digit_char d)"
  by (simp add: radix_digit_def digit_char_plain)

lemma show_nat_digits: "c \<in> set (show_nat n) \<Longrightarrow> \<exists>d<10. c = digit_char d"
proof (induction n arbitrary: c rule: show_nat.induct)
  case (1 n)
  show ?case
  proof (cases "n < 10")
    case True
    then show ?thesis using "1.prems" by (subst (asm) show_nat.simps) auto
  next
    case False
    from "1.prems" have "c \<in> set (show_nat (n div 10)) \<or> c = digit_char (n mod 10)"
      using False by (subst (asm) show_nat.simps) auto
    then show ?thesis
    proof
      assume "c \<in> set (show_nat (n div 10))"
      then show ?thesis by (rule "1.IH" [OF False])
    next
      assume "c = digit_char (n mod 10)"
      moreover have "n mod 10 < 10" by simp
      ultimately show ?thesis by blast
    qed
  qed
qed

lemma show_nat_nonempty: "show_nat n \<noteq> []"
  by (subst show_nat.simps) simp

lemma radix_value_snoc:
  "radix_value r (ds @ [c]) = radix_value r ds * r + the (digit_value c)"
  by (simp add: radix_value_def)

lemma radix_value_show_nat: "radix_value 10 (show_nat n) = n"
proof (induction n rule: show_nat.induct)
  case (1 n)
  show ?case
  proof (cases "n < 10")
    case True
    then show ?thesis
      by (subst show_nat.simps) (simp add: radix_value_def digit_char_plain)
  next
    case False
    have "radix_value 10 (show_nat n)
        = radix_value 10 (show_nat (n div 10)) * 10 + the (digit_value (digit_char (n mod 10)))"
      using False by (subst show_nat.simps) (simp add: radix_value_snoc)
    also have "\<dots> = (n div 10) * 10 + n mod 10"
      using "1.IH" [OF False] by (simp add: digit_char_plain)
    finally show ?thesis by simp
  qed
qed

text \<open>Parsing a non-empty run of decimal digits, with or without a minus sign in front.\<close>

lemma parseInt_digits:
  assumes "s \<noteq> []" and all: "\<forall>x \<in> set s. \<exists>d<10. x = digit_char d"
  shows "parseInt s = Some (int (radix_value 10 s))"
    and "parseInt (CHR ''-'' # s) = Some (- int (radix_value 10 s))"
proof -
  obtain c cs where s: "s = c # cs" using assms(1) by (cases s) auto
  obtain d where d: "d < 10" "c = digit_char d" using all s by auto
  have plain: "\<not> is_space c" "c \<noteq> CHR ''-''" "c \<noteq> CHR ''+''"
    using digit_char_plain [OF d(1)] d(2) by simp_all
  have second: "cs = [] \<or> (hd cs \<noteq> CHR ''x'' \<and> hd cs \<noteq> CHR ''X'')"
  proof (cases cs)
    case Nil
    then show ?thesis by simp
  next
    case (Cons c2 cs2)
    then have "c2 \<in> set s" using s by simp
    then obtain d2 where "d2 < 10" "c2 = digit_char d2" using all by auto
    then show ?thesis using digit_char_plain [of d2] Cons by simp
  qed
  have nohex: "\<not> starts_with s ''0x''" "\<not> starts_with s ''0X''"
    using second s by (cases cs; simp)+
  have tw: "takeWhile (radix_digit 10) s = s"
    using all by (auto simp: takeWhile_eq_all_conv radix_digit_digit_char)
  have dw: "dropWhile is_space s = s" using s plain by simp
  have hd: "hd s = c" using s by simp
  show "parseInt s = Some (int (radix_value 10 s))"
    unfolding parseInt_def Let_def dw
    using plain nohex assms(1) by (simp add: hd tw)
  have minus: "\<not> is_space CHR ''-''" by (simp add: is_space_def)
  show "parseInt (CHR ''-'' # s) = Some (- int (radix_value 10 s))"
    unfolding parseInt_def Let_def
    using minus nohex assms(1) by (simp add: tw)
qed

lemma parseInt_show_int: "parseInt (show_int i) = Some i"
proof -
  have d: "\<forall>x \<in> set (show_nat n). \<exists>d<10. x = digit_char d" for n
    using show_nat_digits by blast
  show ?thesis
    using parseInt_digits [OF show_nat_nonempty d, of "nat i"]
      parseInt_digits [OF show_nat_nonempty d, of "nat (- i)"]
    by (simp add: show_int_def radix_value_show_nat)
qed

lemma parseInt_NaN: "parseInt ''NaN'' = None"
  by code_simp

lemma parseInt_num_simps [simp]:
  "parseInt_num (Num i) = Some i" "parseInt_num NaN = None"
  by (simp_all add: parseInt_num_def parseInt_show_int parseInt_NaN)

subsection \<open>Closed-form return values\<close>

lemma bit_length_le: "m < 2 ^ k \<Longrightarrow> bit_length m \<le> k"
proof (induction k arbitrary: m)
  case 0
  then show ?case by (subst bit_length.simps) simp
next
  case (Suc k)
  show ?case
  proof (cases "m \<le> 0")
    case True
    then show ?thesis by (subst bit_length.simps) simp
  next
    case False
    have "m div 2 < 2 ^ k" using Suc.prems by simp
    then have "bit_length (m div 2) \<le> k" by (rule Suc.IH)
    then show ?thesis using False by (subst bit_length.simps) simp
  qed
qed

lemma round_double_exact: "m < 2 ^ 53 \<Longrightarrow> round_double m = Finite m"
  using bit_length_le [of m 53] by (simp add: round_double_def Let_def)

lemma fib_nonneg: "0 \<le> fib n"
  by (induction n rule: fib.induct) simp_all

lemma fib_step: "fib n \<le> fib (Suc n)"
  by (cases n) (simp_all add: fib_nonneg)

lemma fib_mono: "m \<le> n \<Longrightarrow> fib m \<le> fib n"
proof (induction n)
  case 0
  then show ?case by simp
next
  case (Suc n)
  show ?case
  proof (cases "m = Suc n")
    case True
    then show ?thesis by simp
  next
    case False
    then have "fib m \<le> fib n" using Suc by simp
    then show ?thesis using fib_step [of n] by simp
  qed
qed

lemma fib_pair_fib: "fib_pair n = (fib n, fib (Suc n))"
  by (induction n) (simp_all add: add.commute)

lemma fib_pair_78: "fib_pair 78 = (8944394323791464, 14472334024676221)"
  by code_simp

lemma fib_78: "fib 78 = 8944394323791464" and fib_79: "fib 79 = 14472334024676221"
proof -
  have "fib_pair 78 = (fib 78, fib (Suc 78))" by (rule fib_pair_fib)
  then have "fib 78 = 8944394323791464 \<and> fib (Suc 78) = 14472334024676221"
    unfolding fib_pair_78 by simp
  then show "fib 78 = 8944394323791464" "fib 79 = 14472334024676221" by simp_all
qed

lemma fib_small: "k \<le> 78 \<Longrightarrow> fib k < 2 ^ 53"
  using fib_mono [of k 78] by (simp add: fib_78)

lemma fib_loop_invariant:
  "i = int k + 2 \<Longrightarrow> i \<le> v + 1 \<Longrightarrow> v \<le> 78 \<Longrightarrow>
   fib_loop i v (Finite (fib k)) (Finite (fib (Suc k))) = Finite (fib (nat v))"
proof (induction "nat (v + 1 - i)" arbitrary: i k)
  case 0
  then have "nat v = Suc k" by simp
  moreover have "\<not> i \<le> v" using 0 by simp
  ultimately show ?case by (subst fib_loop.simps) simp
next
  case (Suc m)
  then have le: "i \<le> v" by simp
  have "Suc (Suc k) \<le> 78" using Suc.prems le by simp
  then have "fib (Suc (Suc k)) < 2 ^ 53" by (rule fib_small)
  then have sum: "add_double (Finite (fib k)) (Finite (fib (Suc k))) = Finite (fib (Suc (Suc k)))"
    by (simp add: add_double_def round_double_exact add.commute)
  have "fib_loop (i + 1) v (Finite (fib (Suc k))) (Finite (fib (Suc (Suc k)))) = Finite (fib (nat v))"
    using Suc.prems Suc.hyps(2) by (intro Suc.hyps(1)) simp_all
  then show ?case using le by (subst fib_loop.simps) (simp add: sum)
qed

lemma product_to_small: "n \<le> 1 \<Longrightarrow> product_to n = 1"
proof -
  assume "n \<le> 1"
  then consider "n < 1" | "n = 1" by linarith
  then show ?thesis by cases (simp_all add: product_to_def)
qed

lemma product_to_step: "1 \<le> i \<Longrightarrow> product_to i = product_to (i - 1) * i"
proof -
  assume i: "1 \<le> i"
  have "{1..i} = insert i {1..i - 1}" using i by auto
  then show ?thesis by (simp add: product_to_def)
qed

lemma products_representable:
  "list_all (\<lambda>i. round_double (product_to i) = Finite (product_to i)) [2..22]"
  by code_simp

lemma product_representable:
  "2 \<le> i \<Longrightarrow> i \<le> 22 \<Longrightarrow> round_double (product_to i) = Finite (product_to i)"
proof -
  assume "2 \<le> i" "i \<le> 22"
  then have "i \<in> {2..22}" by simp
  then have "i \<in> set [2..22]" by (simp only: set_upto)
  with products_representable show ?thesis unfolding list_all_iff by blast
qed

lemma fact_loop_invariant:
  "2 \<le> i \<Longrightarrow> i \<le> v + 1 \<Longrightarrow> v \<le> 22 \<Longrightarrow>
   fact_loop i v (Finite (product_to (i - 1))) = Finite (product_to v)"
proof (induction "nat (v + 1 - i)" arbitrary: i)
  case 0
  then have "v = i - 1" by simp
  then show ?case by (subst fact_loop.simps) simp
next
  case (Suc m)
  then have le: "i \<le> v" by simp
  have "mul_double (Finite (product_to (i - 1))) i = round_double (product_to i)"
    using Suc.prems(1) by (simp add: mul_double_def product_to_step [of i])
  also have "\<dots> = Finite (product_to i)"
    using Suc.prems le by (intro product_representable) simp_all
  finally have step: "mul_double (Finite (product_to (i - 1))) i = Finite (product_to i)" .
  have "fact_loop (i + 1) v (Finite (product_to (i + 1 - 1))) = Finite (product_to v)"
    using Suc.prems Suc.hyps(2) le by (intro Suc.hyps(1)) simp_all
  then show ?case using le by (subst fact_loop.simps) (simp add: step)
qed

text \<open>
  C7 (as amended). For every function name and every integer \<open>n\<close>, \<open>calculateReturn\<close> yields: when
  the lower-cased name contains \<open>fib\<close> and \<open>n \<le> 78\<close>, the Fibonacci number of \<open>n\<close> (with
  \<open>fib 0 = 0\<close> and \<open>fib 1 = 1\<close>; a negative \<open>n\<close>, for which that sequence has no member, is
  returned as it is); otherwise, when it contains \<open>factorial\<close> or \<open>fact\<close> and \<open>n \<le> 22\<close>, the
  product \<open>1 \<cdot> 2 \<cdots> n\<close>, which is 1 for \<open>n \<le> 1\<close>; otherwise, when it contains neither, \<open>n\<close>
  itself. Up to these bounds every intermediate value is a double.
\<close>

theorem calculateReturn_closed_form:
  assumes "includes_str (toLowerCase funcName) ''fib'' \<Longrightarrow> n \<le> 78"
    and "\<not> includes_str (toLowerCase funcName) ''fib'' \<Longrightarrow>
         includes_str (toLowerCase funcName) ''factorial''
           \<or> includes_str (toLowerCase funcName) ''fact'' \<Longrightarrow> n \<le> 22"
  shows "calculateReturn funcName n =
     Finite (if includes_str (toLowerCase funcName) ''fib''
             then (if 0 \<le> n then fib (nat n) else n)
             else if includes_str (toLowerCase funcName) ''factorial''
                     \<or> includes_str (toLowerCase funcName) ''fact''
             then product_to n
             else n)"
proof -
  have f: "fib_loop 2 n (Finite 0) (Finite 1) = Finite (fib (nat n))" if "1 < n" "n \<le> 78"
    using fib_loop_invariant [of 2 0 n] that by simp
  have small: "fib (nat n) = n" if "0 \<le> n" "n \<le> 1"
  proof -
    from that have "n = 0 \<or> n = 1" by auto
    then show ?thesis by auto
  qed
  have p: "fact_loop 2 n (Finite 1) = Finite (product_to n)" if "n \<le> 22"
  proof (cases "2 \<le> n")
    case True
    then show ?thesis
      using fact_loop_invariant [of 2 n] that by (simp add: product_to_small)
  next
    case False
    then show ?thesis by (subst fact_loop.simps) (simp add: product_to_small)
  qed
  show ?thesis
  proof (cases "includes_str (toLowerCase funcName) ''fib''")
    case True
    then have "n \<le> 78" by (rule assms(1))
    then show ?thesis
      using True f small by (cases "n \<le> 1") (auto simp: calculateReturn_def Let_def)
  next
    case False
    show ?thesis
    proof (cases "includes_str (toLowerCase funcName) ''factorial''
                  \<or> includes_str (toLowerCase funcName) ''fact''")
      case True
      with False have "n \<le> 22" by (rule assms(2))
      then show ?thesis using False True p by (simp add: calculateReturn_def Let_def)
    next
      case False
      then show ?thesis
        using \<open>\<not> includes_str (toLowerCase funcName) ''fib''\<close>
        by (simp add: calculateReturn_def Let_def)
    qed
  qed
qed

text \<open>One name for each branch, at the bounds and inside them.\<close>

theorem calculateReturn_closed_form_witness:
  "calculateReturn ''factorial'' 5 = Finite 120
   \<and> calculateReturn ''myFact'' 22 = Finite 1124000727777607680000
   \<and> calculateReturn ''Fibonacci'' 78 = Finite 8944394323791464
   \<and> calculateReturn ''fib'' (- 3) = Finite (- 3)
   \<and> calculateReturn ''countdown'' 30 = Finite 30"
proof -
  have names:
    "\<not> includes_str (toLowerCase ''factorial'') ''fib''"
    "includes_str (toLowerCase ''factorial'') ''factorial''"
    "\<not> includes_str (toLowerCase ''myFact'') ''fib''"
    "includes_str (toLowerCase ''myFact'') ''fact''"
    "includes_str (toLowerCase ''Fibonacci'') ''fib''"
    "includes_str (toLowerCase ''fib'') ''fib''"
    "\<not> includes_str (toLowerCase ''countdown'') ''fib''"
    "\<not> includes_str (toLowerCase ''countdown'') ''factorial''"
    "\<not> includes_str (toLowerCase ''countdown'') ''fact''"
    by (code_simp+)
  have prods: "product_to 5 = 120" "product_to 22 = 1124000727777607680000"
    by (code_simp+)
  show ?thesis
    using calculateReturn_closed_form [of "''factorial''" 5]
      calculateReturn_closed_form [of "''myFact''" 22]
      calculateReturn_closed_form [of "''Fibonacci''" 78]
      calculateReturn_closed_form [of "''fib''" "- 3"]
      calculateReturn_closed_form [of "''countdown''" 30]
    by (simp add: names prods fib_78)
qed

text \<open>
  Beyond the bounds the loops round: the value computed for \<open>factorial(23)\<close> is not the
  product \<open>1 \<cdot> 2 \<cdots> 23\<close>, and the value computed for \<open>fib(79)\<close> is not the 79th Fibonacci
  number.
\<close>

theorem calculateReturn_rounding_counterexample:
  "calculateReturn ''factorial'' 23 = Finite 25852016738884978212864
   \<and> product_to 23 = 25852016738884976640000
   \<and> calculateReturn ''fib'' 79 = Finite 14472334024676220
   \<and> fib 79 = 14472334024676221"
proof -
  have "calculateReturn ''factorial'' 23 = Finite 25852016738884978212864" by code_simp
  moreover have "product_to 23 = 25852016738884976640000" by code_simp
  moreover have "calculateReturn ''fib'' 79 = Finite 14472334024676220" by code_simp
  ultimately show ?thesis by (simp add: fib_79)
qed

subsection \<open>The shape of a simulated call\<close>

lemma simulateCall_stop:
  "gt_num depth maxDepth \<or> 20 < length stack \<or> map_of fs funcName = None \<Longrightarrow>
   simulateCall fs stepInfo maxDepth funcName argValue depth stack trace = trace"
  by (subst simulateCall.simps) auto

lemma simulateCall_step:
  "\<not> gt_num depth maxDepth \<Longrightarrow> \<not> 20 < length stack \<Longrightarrow> map_of fs funcName = Some f \<Longrightarrow>
   simulateCall fs stepInfo maxDepth funcName argValue depth stack trace =
     (if func_isRecursive f \<and> \<not> argValue \<le> 1
      then simulateCall fs stepInfo maxDepth funcName (nextArg stepInfo argValue) (depth + 1)
             (stack @ [make_frame f funcName argValue depth])
             (trace @ [push_event funcName argValue (make_frame f funcName argValue depth)
                         (stack @ [make_frame f funcName argValue depth])])
      else trace @ [push_event funcName argValue (make_frame f funcName argValue depth)
                         (stack @ [make_frame f funcName argValue depth])])
     @ [pop_event funcName argValue (make_frame f funcName argValue depth) (argValue \<le> 1) stack]"
  by (subst simulateCall.simps) (simp add: Let_def)

text \<open>
  Induction along the descent of the simulation; the accumulated trace plays no part in it.
\<close>

lemma simulateCall_descent [case_names stop step]:
  assumes stop: "\<And>fs stepInfo maxDepth funcName argValue depth stack.
      gt_num depth maxDepth \<or> 20 < length stack \<or> map_of fs funcName = None \<Longrightarrow>
      P fs stepInfo maxDepth funcName argValue depth stack"
    and step: "\<And>fs stepInfo maxDepth funcName argValue depth stack f.
      \<not> gt_num depth maxDepth \<Longrightarrow> \<not> 20 < length stack \<Longrightarrow> map_of fs funcName = Some f \<Longrightarrow>
      (func_isRecursive f \<and> \<not> argValue \<le> 1 \<Longrightarrow>
         P fs stepInfo maxDepth funcName (nextArg stepInfo argValue) (depth + 1)
           (stack @ [make_frame f funcName argValue depth])) \<Longrightarrow>
      P fs stepInfo maxDepth funcName argValue depth stack"
  shows "P fs stepInfo maxDepth funcName argValue depth stack"
proof -
  have "P fs stepInfo maxDepth funcName argValue depth stack"
    if "trace = trace" for trace :: "event list"
    using that
  proof (induction fs stepInfo maxDepth funcName argValue depth stack trace
       rule: simulateCall.induct)
    case (1 fs stepInfo maxDepth funcName argValue depth stack trace)
    show ?case
    proof (cases "gt_num depth maxDepth \<or> 20 < length stack \<or> map_of fs funcName = None")
      case True
      then show ?thesis by (rule stop)
    next
      case False
      then obtain f where f: "map_of fs funcName = Some f" by auto
      from False have g: "\<not> gt_num depth maxDepth" "\<not> 20 < length stack" by auto
      show ?thesis
      proof (rule step [OF g f])
        assume r: "func_isRecursive f \<and> \<not> argValue \<le> 1"
        show "P fs stepInfo maxDepth funcName (nextArg stepInfo argValue) (depth + 1)
             (stack @ [make_frame f funcName argValue depth])"
          by (rule "1.IH" [OF g f refl refl refl refl r refl])
      qed
    qed
  qed
  then show ?thesis by simp
qed

text \<open>The events a call appends do not depend on the events already in the trace.\<close>

lemma simulateCall_append:
  "simulateCall fs stepInfo maxDepth funcName argValue depth stack trace =
     trace @ simulateCall fs stepInfo maxDepth funcName argValue depth stack []"
proof (induction fs stepInfo maxDepth funcName argValue depth stack arbitrary: trace
       rule: simulateCall_descent)
  case (stop fs stepInfo maxDepth funcName argValue depth stack)
  then show ?case by (simp add: simulateCall_stop)
next
  case (step fs stepInfo maxDepth funcName argValue depth stack f)
  show ?case
  proof (cases "func_isRecursive f \<and> \<not> argValue \<le> 1")
    case True
    define nf where "nf = make_frame f funcName argValue depth"
    define pu where "pu = push_event funcName argValue nf (stack @ [nf])"
    define po where "po = pop_event funcName argValue nf (argValue \<le> 1) stack"
    define rest where "rest = simulateCall fs stepInfo maxDepth funcName
      (nextArg stepInfo argValue) (depth + 1) (stack @ [nf]) []"
    have a: "simulateCall fs stepInfo maxDepth funcName (nextArg stepInfo argValue) (depth + 1)
        (stack @ [nf]) (t @ [pu]) = (t @ [pu]) @ rest" for t
      unfolding rest_def nf_def by (rule step.IH [OF True])
    have "simulateCall fs stepInfo maxDepth funcName argValue depth stack t
        = (t @ [pu]) @ rest @ [po]" for t
      unfolding simulateCall_step [OF step.hyps(1,2,3)]
      using True a [of t] by (simp add: nf_def pu_def po_def)
    from this [of trace] this [of "[]"] show ?thesis by simp
  next
    case False
    then show ?thesis
      unfolding simulateCall_step [OF step.hyps(1,2,3)] by auto
  qed
qed

lemma simulateCall_emitted:
  "simulateCall fs stepInfo maxDepth funcName argValue depth stack [] =
     (if gt_num depth maxDepth \<or> 20 < length stack then []
      else case map_of fs funcName of
        None \<Rightarrow> []
      | Some f \<Rightarrow>
          push_event funcName argValue (make_frame f funcName argValue depth)
            (stack @ [make_frame f funcName argValue depth])
          # (if func_isRecursive f \<and> \<not> argValue \<le> 1
             then simulateCall fs stepInfo maxDepth funcName (nextArg stepInfo argValue)
                    (depth + 1) (stack @ [make_frame f funcName argValue depth]) []
             else [])
          @ [pop_event funcName argValue (make_frame f funcName argValue depth)
               (argValue \<le> 1) stack])"
proof (cases "gt_num depth maxDepth \<or> 20 < length stack \<or> map_of fs funcName = None")
  case True
  then show ?thesis by (auto simp: simulateCall_stop)
next
  case False
  then obtain f where f: "map_of fs funcName = Some f" by auto
  from False have g: "\<not> gt_num depth maxDepth" "\<not> 20 < length stack" by auto
  have "simulateCall fs stepInfo maxDepth funcName (nextArg stepInfo argValue) (depth + 1)
          (stack @ [make_frame f funcName argValue depth]) [e]
        = [e] @ simulateCall fs stepInfo maxDepth funcName (nextArg stepInfo argValue) (depth + 1)
          (stack @ [make_frame f funcName argValue depth]) []" for e
    by (rule simulateCall_append)
  then show ?thesis
    unfolding simulateCall_step [OF g f] using g f by simp
qed

subsection \<open>Balance\<close>

lemma replay_append:
  "replay st (xs @ ys) = (case replay st xs of None \<Rightarrow> None | Some st' \<Rightarrow> replay st' ys)"
proof (induction xs arbitrary: st)
  case Nil
  show ?case by simp
next
  case (Cons e es)
  show ?case
  proof (cases "ev_action e")
    case Push
    show ?thesis
      by (cases "map frame_id (ev_fullStack e) = st @ [frame_id (ev_frame e)]")
         (simp_all only: append_Cons replay.simps Push action.case if_True if_False Cons.IH
            simp_thms option.case)
  next
    case Pop
    show ?thesis
      by (cases "st \<noteq> [] \<and> last st = frame_id (ev_frame e)
                  \<and> map frame_id (ev_fullStack e) = butlast st")
         (simp_all only: append_Cons replay.simps Pop action.case if_True if_False Cons.IH
            simp_thms option.case)
  qed
qed

lemma replay_counts:
  "replay st t = Some st' \<Longrightarrow> length st + pushes t = length st' + pops t"
proof (induction t arbitrary: st)
  case Nil
  then show ?case by (simp add: pushes_def pops_def)
next
  case (Cons e es)
  show ?case
  proof (cases "ev_action e")
    case Push
    with Cons.prems have "replay (st @ [frame_id (ev_frame e)]) es = Some st'"
      by (simp split: if_splits)
    from Cons.IH [OF this] Push show ?thesis by (simp add: pushes_def pops_def)
  next
    case Pop
    with Cons.prems have ne: "st \<noteq> []" and r: "replay (butlast st) es = Some st'"
      by (simp_all split: if_splits)
    from ne have "0 < length st" by simp
    moreover have "length (butlast st) = length st - 1" by simp
    moreover have "length (butlast st) + pushes es = length st' + pops es"
      by (rule Cons.IH [OF r])
    moreover have "pushes (e # es) = pushes es" "pops (e # es) = Suc (pops es)"
      using Pop by (simp_all add: pushes_def pops_def)
    ultimately show ?thesis by arith
  qed
qed

lemma balanced_prefix:
  assumes "balanced t"
  shows "pops (take n t) \<le> pushes (take n t)"
proof -
  have "replay [] (take n t @ drop n t) = Some []"
    using assms by (simp add: balanced_def)
  then obtain st where "replay [] (take n t) = Some st"
    unfolding replay_append by (cases "replay [] (take n t)") simp_all
  from replay_counts [OF this] show ?thesis by simp
qed

lemma balanced_counts: "balanced t \<Longrightarrow> pops t = pushes t"
  using replay_counts [of "[]" t "[]"] by (simp add: balanced_def)

lemma frame_id_isBaseCase [simp]: "frame_id (f\<lparr>frame_isBaseCase := b\<rparr>) = frame_id f"
  by (simp add: frame_id_def)

lemma replay_push_event:
  "replay (map frame_id stack) [push_event fn a nf (stack @ [nf])]
     = Some (map frame_id (stack @ [nf]))"
  by (simp add: push_event_def)

lemma replay_pop_event:
  "replay (map frame_id (stack @ [nf])) [pop_event fn a nf b stack] = Some (map frame_id stack)"
  by (simp add: pop_event_def)

lemma simulateCall_replay:
  "replay (map frame_id stack)
     (simulateCall fs stepInfo maxDepth funcName argValue depth stack [])
   = Some (map frame_id stack)"
proof (induction fs stepInfo maxDepth funcName argValue depth stack
       rule: simulateCall_descent)
  case (stop fs stepInfo maxDepth funcName argValue depth stack)
  then show ?case by (simp add: simulateCall_stop)
next
  case (step fs stepInfo maxDepth funcName argValue depth stack f)
  define nf where "nf = make_frame f funcName argValue depth"
  define inner where "inner =
    (if func_isRecursive f \<and> \<not> argValue \<le> 1
     then simulateCall fs stepInfo maxDepth funcName (nextArg stepInfo argValue)
            (depth + 1) (stack @ [nf]) []
     else [])"
  have shape: "simulateCall fs stepInfo maxDepth funcName argValue depth stack []
      = [push_event funcName argValue nf (stack @ [nf])] @ inner
        @ [pop_event funcName argValue nf (argValue \<le> 1) stack]"
    using step.hyps by (subst simulateCall_emitted) (simp add: nf_def inner_def)
  have inner: "replay (map frame_id (stack @ [nf])) inner = Some (map frame_id (stack @ [nf]))"
    using step.IH by (simp add: inner_def nf_def)
  show ?case
    unfolding shape replay_append replay_push_event inner option.case
    by (rule replay_pop_event)
qed

lemma main_fallback_balanced: "balanced [main_push ln, main_pop ln]"
  by (simp add: balanced_def main_push_def main_pop_def frame_id_def)

lemma simulateRecursion_balanced: "balanced (simulateRecursion ast maxDepth)"
proof (cases ast)
  case None
  then show ?thesis by (simp add: simulateRecursion_def balanced_def)
next
  case (Some a)
  show ?thesis
  proof (cases "first_recursive (analyse a)")
    case None
    then show ?thesis
      using Some main_fallback_balanced
      by (auto simp: simulateRecursion_def Let_def balanced_def split: option.splits)
  next
    case (Some r)
    have "balanced (simulateCall fs si maxDepth fn v 0 [] [])" for fs si fn v
      using simulateCall_replay [of "[]" fs si maxDepth fn v 0] by (simp add: balanced_def)
    then show ?thesis
      using \<open>ast = Some a\<close> Some by (simp add: simulateRecursion_def Let_def)
  qed
qed

text \<open>
  C1. For every AST and every \<open>maxDepth\<close>, the trace of \<open>simulateRecursion\<close> is balanced: its
  replay succeeds and ends with the empty stack, so that every push is answered by exactly
  one later pop of the same frame occurrence and no pop meets an empty stack; the number
  of pops equals the number of pushes, and in no prefix of the trace do the pops outnumber
  the pushes.
\<close>

theorem simulateRecursion_trace_balanced:
  "balanced (simulateRecursion ast maxDepth)
   \<and> pops (simulateRecursion ast maxDepth) = pushes (simulateRecursion ast maxDepth)
   \<and> (\<forall>n. pops (take n (simulateRecursion ast maxDepth))
            \<le> pushes (take n (simulateRecursion ast maxDepth)))"
  using simulateRecursion_balanced [of ast maxDepth]
  by (simp add: balanced_counts balanced_prefix)

subsection \<open>Depth bound and truncation\<close>

lemma depth_within_simps [simp]:
  "depth_within d [] = True"
  "depth_within d (e # es) = (list_all (\<lambda>f. frame_depth f \<le> d) (event_frames e) \<and> depth_within d es)"
  "depth_within d (xs @ ys) = (depth_within d xs \<and> depth_within d ys)"
  by (simp_all add: depth_within_def)

lemma stack_within_simps [simp]:
  "stack_within k [] = True"
  "stack_within k (e # es) = (length (ev_fullStack e) \<le> k \<and> stack_within k es)"
  "stack_within k (xs @ ys) = (stack_within k xs \<and> stack_within k ys)"
  by (simp_all add: stack_within_def)

lemma event_frames_push [simp]: "event_frames (push_event fn a nf st) = nf # st"
  by (simp add: event_frames_def push_event_def)

lemma event_frames_pop [simp]:
  "event_frames (pop_event fn a nf b st) = nf\<lparr>frame_isBaseCase := Some b\<rparr> # st"
  by (simp add: event_frames_def pop_event_def)

lemma frame_depth_make_frame [simp]: "frame_depth (make_frame f fn a d) = d"
  by (simp add: make_frame_def)

lemma simulateCall_shape:
  assumes "\<not> gt_num depth maxDepth" "\<not> 20 < length stack" "map_of fs funcName = Some f"
  shows "simulateCall fs stepInfo maxDepth funcName argValue depth stack [] =
      [push_event funcName argValue (make_frame f funcName argValue depth)
         (stack @ [make_frame f funcName argValue depth])]
      @ (if func_isRecursive f \<and> \<not> argValue \<le> 1
         then simulateCall fs stepInfo maxDepth funcName (nextArg stepInfo argValue)
                (depth + 1) (stack @ [make_frame f funcName argValue depth]) []
         else [])
      @ [pop_event funcName argValue (make_frame f funcName argValue depth) (argValue \<le> 1) stack]"
  using assms by (subst simulateCall_emitted) simp

lemma simulateCall_depth_within:
  "list_all (\<lambda>f. frame_depth f \<le> d) stack \<Longrightarrow>
   (\<exists>i. maxDepth = Num i \<and> i \<le> d) \<or> (depth = int (length stack) \<and> 20 \<le> d) \<Longrightarrow>
   depth_within d (simulateCall fs stepInfo maxDepth funcName argValue depth stack [])"
proof (induction fs stepInfo maxDepth funcName argValue depth stack
       rule: simulateCall_descent)
  case (stop fs stepInfo maxDepth funcName argValue depth stack)
  then show ?case by (simp add: simulateCall_stop)
next
  case (step fs stepInfo maxDepth funcName argValue depth stack f)
  have dd: "depth \<le> d"
    using step.prems(2) step.hyps(1,2) by (auto simp: gt_num_def)
  have inner: "depth_within d (simulateCall fs stepInfo maxDepth funcName (nextArg stepInfo argValue)
                (depth + 1) (stack @ [make_frame f funcName argValue depth]) [])"
    if "func_isRecursive f \<and> \<not> argValue \<le> 1"
    using that step.prems dd by (intro step.IH) auto
  show ?case
    unfolding simulateCall_shape [OF step.hyps(1,2,3)]
    using step.prems(1) dd inner
    by auto
qed

lemma simulateCall_stack_within:
  "stack_within 21 (simulateCall fs stepInfo maxDepth funcName argValue depth stack [])"
proof (induction fs stepInfo maxDepth funcName argValue depth stack
       rule: simulateCall_descent)
  case (stop fs stepInfo maxDepth funcName argValue depth stack)
  then show ?case by (simp add: simulateCall_stop)
next
  case (step fs stepInfo maxDepth funcName argValue depth stack f)
  show ?case
    unfolding simulateCall_shape [OF step.hyps(1,2,3)]
    using step.hyps(2) step.IH
    by (auto simp: push_event_def pop_event_def)
qed

lemma main_fallback_depth: "0 \<le> d \<Longrightarrow> depth_within d [main_push ln, main_pop ln]"
  by (simp add: event_frames_def main_push_def main_pop_def)

lemma main_fallback_stack: "stack_within 21 [main_push ln, main_pop ln]"
  by (simp add: main_push_def main_pop_def)

lemma simulateRecursion_cases:
  obtains (null) "ast = None" "simulateRecursion ast maxDepth = []" "getRecursiveInfo ast = None"
  | (recursive) a rf f where "ast = Some a" "first_recursive (analyse a) = Some (rf, f)"
      "getRecursiveInfo ast \<noteq> None"
      "simulateRecursion ast maxDepth =
         simulateCall (analyse a) (detect_stepInfo (analyse a) (Some rf)) maxDepth rf
           (case parseInt_num maxDepth of None \<Rightarrow> 5 | Some i \<Rightarrow> i) 0 [] []"
  | (main) a m where "ast = Some a" "first_recursive (analyse a) = None"
      "getRecursiveInfo ast = None"
      "map_of (analyse a) ''main'' = Some m"
      "simulateRecursion ast maxDepth = [main_push (func_line m), main_pop (func_line m)]"
  | (nothing) a where "ast = Some a" "first_recursive (analyse a) = None"
      "getRecursiveInfo ast = None"
      "map_of (analyse a) ''main'' = None" "simulateRecursion ast maxDepth = []"
proof (cases ast)
  case None
  show ?thesis
    by (rule null) (use None in \<open>simp_all add: simulateRecursion_def getRecursiveInfo_def\<close>)
next
  case (Some a)
  show ?thesis
  proof (cases "first_recursive (analyse a)")
    case None
    show ?thesis
    proof (cases "map_of (analyse a) ''main''")
      case n: None
      show ?thesis
        by (rule nothing [of a])
           (use Some None n in \<open>simp_all add: simulateRecursion_def getRecursiveInfo_def\<close>)
    next
      case (Some m)
      show ?thesis
        by (rule main [of a m])
           (use \<open>ast = Some a\<close> None Some in
             \<open>simp_all add: simulateRecursion_def getRecursiveInfo_def\<close>)
    qed
  next
    case r: (Some p)
    obtain rf f where p: "p = (rf, f)" by (cases p)
    show ?thesis
      by (rule recursive [of a rf f])
         (use Some r p in \<open>simp_all add: simulateRecursion_def getRecursiveInfo_def Let_def\<close>)
  qed
qed

text \<open>
  C2. For every AST and every \<open>maxDepth = d\<close> (an integer from 0 on; the interface gives
  \<open>maxDepth\<close> the range \<open>[1, 20]\<close>), no stack frame in any event of the trace, be it the
  event's own frame or a frame of its snapshot, has a depth above \<open>d\<close>. Independently of
  \<open>maxDepth\<close> (also when it is \<open>NaN\<close>), a call entered with more than 20 frames on the
  simulated stack appends nothing, so no snapshot holds more than 21 frames and no frame
  lies deeper than 20; and the trace is balanced all the same.
\<close>

theorem depth_bound_and_truncation:
  assumes "0 \<le> d"
  shows "depth_within d (simulateRecursion ast (Num d))
    \<and> depth_within 20 (simulateRecursion ast maxDepth)
    \<and> stack_within 21 (simulateRecursion ast maxDepth)
    \<and> (20 < length stack \<longrightarrow>
         simulateCall fs stepInfo maxDepth funcName argValue depth stack trace = trace)
    \<and> balanced (simulateRecursion ast maxDepth)"
proof -
  have a: "depth_within d (simulateRecursion ast (Num d))"
  proof (cases rule: simulateRecursion_cases [where ast = ast and maxDepth = "Num d"])
    case (recursive a rf f)
    show ?thesis unfolding recursive(4)
      by (rule simulateCall_depth_within) simp_all
  next
    case (main a m)
    then show ?thesis using assms main_fallback_depth by simp
  qed simp_all
  have b: "depth_within 20 (simulateRecursion ast maxDepth)"
  proof (cases rule: simulateRecursion_cases [where ast = ast and maxDepth = maxDepth])
    case (recursive a rf f)
    show ?thesis unfolding recursive(4)
      by (rule simulateCall_depth_within) simp_all
  next
    case (main a m)
    then show ?thesis using main_fallback_depth [of 20] by simp
  qed simp_all
  have c: "stack_within 21 (simulateRecursion ast maxDepth)"
  proof (cases rule: simulateRecursion_cases [where ast = ast and maxDepth = maxDepth])
    case (recursive a rf f)
    show ?thesis unfolding recursive(4) by (rule simulateCall_stack_within)
  next
    case (main a m)
    then show ?thesis using main_fallback_stack by simp
  qed simp_all
  show ?thesis
    using a b c simulateRecursion_balanced [of ast maxDepth]
    by (simp add: simulateCall_stop)
qed

text \<open>
  The factorial example with \<open>maxDepth = 30\<close>: the stack bound cuts the descent after 21
  frames (42 events instead of 60).
\<close>

theorem depth_bound_and_truncation_witness:
  "depth_within 30 (simulateRecursion (Some factorial_ast) (Num 30))
   \<and> depth_within 20 (simulateRecursion (Some factorial_ast) (Num 30))
   \<and> stack_within 21 (simulateRecursion (Some factorial_ast) (Num 30))
   \<and> 20 < length deep_stack
   \<and> simulateCall (analyse factorial_ast) \<lparr>operator = ''-'', step_value = 1\<rparr> (Num 30)
        ''factorial'' 9 21 deep_stack [] = []
   \<and> balanced (simulateRecursion (Some factorial_ast) (Num 30))
   \<and> length (simulateRecursion (Some factorial_ast) (Num 30)) = 42"
proof -
  have h: "(0::int) \<le> 30" by simp
  have l: "20 < length deep_stack" by (simp add: deep_stack_def)
  have n: "length (simulateRecursion (Some factorial_ast) (Num 30)) = 42" by code_simp
  show ?thesis
    using depth_bound_and_truncation [OF h, of "Some factorial_ast" "Num 30" deep_stack
        "analyse factorial_ast"
        "\<lparr>operator = ''-'', step_value = 1\<rparr>" "''factorial''" 9 21 "[]"] l n
    by simp
qed

subsection \<open>The starting argument\<close>





subsection \<open>The function table\<close>

lemma keys_obj_insert_index:
  "fst ` set (obj_insert_index k v t) = insert k (fst ` set t)"
proof (induction t)
  case Nil
  show ?case by simp
next
  case (Cons p t)
  obtain k' v' where p: "p = (k', v')" by (cases p)
  show ?case
    using Cons.IH
    by (cases "is_array_index k' \<and> radix_value 10 k' < radix_value 10 k") (auto simp: p)
qed

lemma distinct_obj_insert_index:
  "k \<notin> fst ` set t \<Longrightarrow> distinct (map fst t) \<Longrightarrow> distinct (map fst (obj_insert_index k v t))"
proof (induction t)
  case Nil
  then show ?case by simp
next
  case (Cons p t)
  obtain k' v' where p: "p = (k', v')" by (cases p)
  have "k' \<notin> fst ` set (obj_insert_index k v t)"
    using Cons.prems p unfolding keys_obj_insert_index by auto
  then show ?case using Cons p by auto
qed

lemma map_fst_update_in_place:
  "map fst (map (\<lambda>(k', v'). if k' = k then (k', v) else (k', v')) t) = map fst t"
  by (induction t) auto

lemma map_fst_obj_set:
  "fst ` set (obj_set t k v)
     = (if k = ''__proto__'' then fst ` set t else insert k (fst ` set t))"
  "distinct (map fst t) \<Longrightarrow> distinct (map fst (obj_set t k v))"
proof -
  consider (proto) "k = ''__proto__''"
    | (old) "k \<noteq> ''__proto__''" "k \<in> fst ` set t"
    | (index) "k \<noteq> ''__proto__''" "k \<notin> fst ` set t" "is_array_index k"
    | (new) "k \<noteq> ''__proto__''" "k \<notin> fst ` set t" "\<not> is_array_index k"
    by blast
  then have "fst ` set (obj_set t k v)
     = (if k = ''__proto__'' then fst ` set t else insert k (fst ` set t))
     \<and> (distinct (map fst t) \<longrightarrow> distinct (map fst (obj_set t k v)))"
  proof cases
    case proto
    then show ?thesis by (simp add: obj_set_def)
  next
    case old
    then have "obj_set t k v = map (\<lambda>(k', v'). if k' = k then (k', v) else (k', v')) t"
      by (simp add: obj_set_def)
    then have m: "map fst (obj_set t k v) = map fst t"
      by (simp only: map_fst_update_in_place)
    from m have "set (map fst (obj_set t k v)) = set (map fst t)" by (rule arg_cong)
    then have "fst ` set (obj_set t k v) = fst ` set t" by simp
    then show ?thesis using old m by auto
  next
    case index
    then have "obj_set t k v = obj_insert_index k v t" by (simp add: obj_set_def)
    then show ?thesis
      using index keys_obj_insert_index [of k v t] distinct_obj_insert_index [of k t v]
      by simp
  next
    case new
    then have "obj_set t k v = t @ [(k, v)]" by (simp add: obj_set_def)
    then show ?thesis using new by simp
  qed
  then show "fst ` set (obj_set t k v)
     = (if k = ''__proto__'' then fst ` set t else insert k (fst ` set t))"
    "distinct (map fst t) \<Longrightarrow> distinct (map fst (obj_set t k v))"
    by simp_all
qed

lemma function_names_Node:
  "function_names (Node ty nm ln cs) =
     (if ty = ''FUNCTION_DECL'' \<and> truthy nm then [the nm] else [])
     @ concat (map function_names cs)"
  unfolding function_names_def [abs_def]
  by (simp add: map_concat filter_concat comp_def)

lemma fold_traverse_extract:
  assumes "\<And>c t. c \<in> set cs \<Longrightarrow>
     fst ` set (traverse_extract c t) = fst ` set t \<union> (set (function_names c) - {''__proto__''})
     \<and> (distinct (map fst t) \<longrightarrow> distinct (map fst (traverse_extract c t)))"
  shows "fst ` set (fold traverse_extract cs t)
      = fst ` set t \<union> (set (concat (map function_names cs)) - {''__proto__''})
     \<and> (distinct (map fst t) \<longrightarrow> distinct (map fst (fold traverse_extract cs t)))"
  using assms
proof (induction cs arbitrary: t)
  case Nil
  then show ?case by simp
next
  case (Cons c cs)
  have c: "fst ` set (traverse_extract c t) = fst ` set t \<union> (set (function_names c) - {''__proto__''})"
    "distinct (map fst t) \<longrightarrow> distinct (map fst (traverse_extract c t))"
    using Cons.prems [of c t] by simp_all
  have rest: "fst ` set (fold traverse_extract cs (traverse_extract c t))
      = fst ` set (traverse_extract c t) \<union> (set (concat (map function_names cs)) - {''__proto__''})
     \<and> (distinct (map fst (traverse_extract c t)) \<longrightarrow>
          distinct (map fst (fold traverse_extract cs (traverse_extract c t))))"
    by (rule Cons.IH) (simp add: Cons.prems)
  show ?case using c rest by auto
qed

lemma traverse_extract_keys:
  "fst ` set (traverse_extract n t) = fst ` set t \<union> (set (function_names n) - {''__proto__''})
   \<and> (distinct (map fst t) \<longrightarrow> distinct (map fst (traverse_extract n t)))"
proof (induction n t rule: traverse_extract.induct)
  case (1 ty nm ln cs fs)
  define t0 where "t0 = (if ty = ''FUNCTION_DECL'' \<and> truthy nm
        then obj_set fs (the nm)
               \<lparr>func_name = the nm, func_line = ln, func_params = param_names cs,
                func_body = Node ty nm ln cs, func_isRecursive = False, func_calls = None\<rparr>
        else fs)"
  have t0: "fst ` set t0 = fst ` set fs
      \<union> (set (if ty = ''FUNCTION_DECL'' \<and> truthy nm then [the nm] else []) - {''__proto__''})"
    "distinct (map fst fs) \<longrightarrow> distinct (map fst t0)"
    by (auto simp: t0_def map_fst_obj_set)
  have "fst ` set (fold traverse_extract cs t0)
      = fst ` set t0 \<union> (set (concat (map function_names cs)) - {''__proto__''})
     \<and> (distinct (map fst t0) \<longrightarrow> distinct (map fst (fold traverse_extract cs t0)))"
    by (rule fold_traverse_extract) (rule "1.IH")
  moreover have "traverse_extract (Node ty nm ln cs) fs = fold traverse_extract cs t0"
    by (simp add: t0_def)
  ultimately show ?case using t0 by (auto simp: function_names_Node)
qed

lemma keys_extractFunctions:
  "fst ` set (extractFunctions a) = set (function_names a) - {''__proto__''}"
  "distinct (map fst (extractFunctions a))"
  using traverse_extract_keys [of a "[]"] by (simp_all add: extractFunctions_def)

lemma map_fst_detectRecursiveFunctions:
  "map fst (detectRecursiveFunctions fs) = map fst fs"
  by (simp add: detectRecursiveFunctions_def Let_def case_prod_beta comp_def)

lemma keys_analyse:
  "fst ` set (analyse a) = set (function_names a) - {''__proto__''}"
  "distinct (map fst (analyse a))"
proof -
  have m: "map fst (analyse a) = map fst (extractFunctions a)"
    by (simp add: analyse_def map_fst_detectRecursiveFunctions)
  then show "distinct (map fst (analyse a))"
    using keys_extractFunctions(2) [of a] by simp
  have "fst ` set (analyse a) = fst ` set (extractFunctions a)"
    using m by (metis list.set_map)
  then show "fst ` set (analyse a) = set (function_names a) - {''__proto__''}"
    using keys_extractFunctions(1) [of a] by simp
qed

lemma first_recursive_lookup:
  assumes "first_recursive (analyse a) = Some (rf, f)"
  shows "map_of (analyse a) rf = Some f"
proof -
  have "(rf, f) \<in> set (analyse a)"
    using assms unfolding first_recursive_def by (metis find_Some_iff nth_mem)
  then show ?thesis using keys_analyse(2) [of a] by simp
qed

lemma main_declared:
  "(map_of (analyse a) ''main'' \<noteq> None) = (''main'' \<in> set (function_names a))"
  using keys_analyse(1) [of a] by (simp add: map_of_eq_None_iff)


subsection \<open>Traces without recursion\<close>

lemma no_self_recursive:
  "(\<not> has_self_recursive a) = (first_recursive (analyse a) = None)"
  by (auto simp: has_self_recursive_def first_recursive_def find_None_iff list_ex_iff)

lemma simulateRecursion_no_recursion:
  assumes "first_recursive (analyse a) = None"
  shows "simulateRecursion (Some a) maxDepth =
     (if ''main'' \<in> set (function_names a)
      then [main_push (main_line a), main_pop (main_line a)] else [])"
  using assms main_declared [of a]
  by (auto simp: simulateRecursion_def main_line_def split: option.splits)

text \<open>
  C8. For every AST without a self-recursive function: when it declares a function named
  \<open>main\<close>, the trace is exactly two events, the push of \<open>main\<close> followed by the pop of \<open>main\<close>
  with return value 0; when it declares no \<open>main\<close>, the trace is empty.
\<close>

theorem main_fallback:
  assumes "\<not> has_self_recursive a"
  shows "simulateRecursion (Some a) maxDepth =
     (if ''main'' \<in> set (function_names a)
      then [main_push (main_line a), main_pop (main_line a)] else [])
   \<and> ev_action (main_push ln) = Push \<and> frame_name (ev_frame (main_push ln)) = ''main''
   \<and> ev_action (main_pop ln) = Pop \<and> frame_name (ev_frame (main_pop ln)) = ''main''
   \<and> ev_returnValue (main_pop ln) = Some (Finite 0)"
  using assms simulateRecursion_no_recursion [of a maxDepth]
  by (simp add: no_self_recursive main_push_def main_pop_def)

text \<open>A tree with \<open>main\<close> alone, and one with a single non-recursive helper.\<close>

theorem main_fallback_witness:
  "\<not> has_self_recursive main_only_ast
   \<and> function_names main_only_ast = [''main'']
   \<and> simulateRecursion (Some main_only_ast) (Num 5) = [main_push 1, main_pop 1]
   \<and> \<not> has_self_recursive helper_only_ast
   \<and> function_names helper_only_ast = [''helper'']
   \<and> simulateRecursion (Some helper_only_ast) (Num 5) = []"
proof -
  have h1: "\<not> has_self_recursive main_only_ast" by code_simp
  have h2: "\<not> has_self_recursive helper_only_ast" by code_simp
  have n1: "function_names main_only_ast = [''main'']" by code_simp
  have n2: "function_names helper_only_ast = [''helper'']" by code_simp
  have l: "main_line main_only_ast = 1" by code_simp
  show ?thesis
    using main_fallback [OF h1, of "Num 5"] main_fallback [OF h2, of "Num 5"] h1 h2 n1 n2 l
    by simp
qed




subsection \<open>Determinism\<close>

text \<open>
  C10. \<open>simulateRecursion\<close> reads nothing but its two arguments: equal arguments give equal
  traces. The only state it mutates is the array \<open>trace\<close>, created afresh by every
  invocation, and what a simulated call appends to it does not depend on what it holds.
\<close>

theorem simulateRecursion_deterministic:
  "(ast1 = ast2 \<and> maxDepth1 = maxDepth2 \<longrightarrow>
      simulateRecursion ast1 maxDepth1 = simulateRecursion ast2 maxDepth2)
   \<and> simulateCall fs stepInfo maxDepth funcName argValue depth stack trace
       = trace @ simulateCall fs stepInfo maxDepth funcName argValue depth stack []"
  using simulateCall_append [of fs stepInfo maxDepth funcName argValue depth stack trace]
  by simp

theorem simulateRecursion_deterministic_witness:
  "simulateRecursion (Some factorial_ast) (Num 5) = simulateRecursion (Some factorial_ast) (Num 5)
   \<and> simulateCall (analyse factorial_ast) \<lparr>operator = ''-'', step_value = 1\<rparr> (Num 5)
        ''factorial'' 2 0 [] [main_push 1]
      = [main_push 1] @ simulateCall (analyse factorial_ast) \<lparr>operator = ''-'', step_value = 1\<rparr>
        (Num 5) ''factorial'' 2 0 [] []"
  using simulateRecursion_deterministic [of "Some factorial_ast" "Some factorial_ast" "Num 5" "Num 5"
      "analyse factorial_ast" "\<lparr>operator = ''-'', step_value = 1\<rparr>" "Num 5" "''factorial''" 2 0
      "[]" "[main_push 1]"]
  by simp


subsection \<open>Callee resolution\<close>

lemma find_append_option:
  "find P (xs @ ys) = (case find P xs of None \<Rightarrow> find P ys | Some x \<Rightarrow> Some x)"
  by (induction xs) auto

lemma names_callee_name: "names_callee n \<Longrightarrow> \<exists>s. node_name n = Some s"
  by (cases "node_name n") (auto simp: names_callee_def truthy_def)

lemma searchForName_preorder:
  "searchForName n =
     (case find names_callee (nodes_preorder n) of None \<Rightarrow> None | Some m \<Rightarrow> node_name m)"
  "searchForName_children cs =
     (case find names_callee (concat (map nodes_preorder cs)) of
        None \<Rightarrow> None | Some m \<Rightarrow> node_name m)"
proof (induction n and cs rule: searchForName_searchForName_children.induct)
  case (1 ty nm ln cs)
  show ?case
  proof (cases "names_callee (Node ty nm ln cs)")
    case True
    then show ?thesis by (auto simp: names_callee_def)
  next
    case False
    then show ?thesis using "1.IH" by (auto simp: names_callee_def)
  qed
next
  case 2
  show ?case by simp
next
  case (3 c cs)
  show ?case
  proof (cases "find names_callee (nodes_preorder c)")
    case None
    then show ?thesis using "3.IH" by (simp add: find_append_option)
  next
    case (Some m)
    then have "names_callee m" by (auto simp: find_Some_iff)
    then obtain s where "node_name m = Some s" using names_callee_name by blast
    then show ?thesis using Some "3.IH"(1) by (simp add: find_append_option)
  qed
qed

text \<open>
  C6 (as amended). For every call-expression node, the callee is the name of the first node,
  in depth-first pre-order of the first child's subtree, that is a declaration reference
  with a non-empty name or any node whose name is not blank; a named node met earlier wins
  over a declaration reference met later. The other children are never searched: the
  result is the same whatever the arguments are.
\<close>

theorem callee_from_first_child_only:
  "findCalleeFromFirstChild callExprNode = callee_by_preorder callExprNode
   \<and> findCalleeFromFirstChild (Node ty nm ln (firstChild # args))
       = findCalleeFromFirstChild (Node ty' nm' ln' (firstChild # args'))"
  by (simp add: findCalleeFromFirstChild_def callee_by_preorder_def searchForName_preorder(1)
        split: list.splits)

text \<open>
  The claim as stated gives declaration references precedence over other named nodes. For
  \<^verbatim>\<open>obj.fn(3)\<close> the code resolves the member reference \<open>fn\<close>, met first, whereas a search
  for a declaration reference first would resolve \<open>obj\<close>.
\<close>

theorem callee_reference_first_counterexample:
  "findCalleeFromFirstChild member_call = Some ''fn''
   \<and> callee_reference_first member_call = Some ''obj''"
  by code_simp

subsection \<open>Step inference\<close>

lemma findCallNode_preorder:
  "findCallNode rf n = first_self_call rf n"
  "findCallNode_children rf cs =
     find (\<lambda>c. node_type c = ''CALL_EXPR'' \<and> findCalleeFromFirstChild c = Some rf)
       (concat (map nodes_preorder cs))"
proof (induction rf n and rf cs rule: findCallNode_findCallNode_children.induct)
  case (1 rf ty nm ln cs)
  show ?case
  proof (cases "ty = ''CALL_EXPR'' \<and> findCalleeFromFirstChild (Node ty nm ln cs) = Some rf")
    case True
    then show ?thesis by (auto simp: first_self_call_def)
  next
    case False
    then show ?thesis using "1.IH" by (auto simp: first_self_call_def)
  qed
next
  case (2 rf)
  show ?case by simp
next
  case (3 rf c cs)
  then show ?case
    by (simp add: find_append_option first_self_call_def split: option.splits)
qed

lemma extractOperand_loop_literals:
  "extractOperand_loop cs =
     (case List.map_filter
        (\<lambda>c. if node_type c = ''INTEGER_LITERAL'' \<and> truthy (node_name c)
             then parseInt (the (node_name c)) else None) cs of
        [] \<Rightarrow> 1 | v # _ \<Rightarrow> v)"
  by (induction cs) (auto split: option.splits)

lemma detectRecursiveStep_rule:
  "detectRecursiveStep callNode =
     (if length (children callNode) < 2 then None else Some (step_rule callNode))"
  "length (children callNode) < 2 \<Longrightarrow> step_rule callNode = \<lparr>operator = ''-'', step_value = 1\<rparr>"
proof -
  show "length (children callNode) < 2 \<Longrightarrow> step_rule callNode = \<lparr>operator = ''-'', step_value = 1\<rparr>"
    by (auto simp: step_rule_def split: list.splits)
  show "detectRecursiveStep callNode =
     (if length (children callNode) < 2 then None else Some (step_rule callNode))"
  proof (cases "children callNode")
    case Nil
    then show ?thesis by (simp add: detectRecursiveStep_def)
  next
    case (Cons c0 rest)
    show ?thesis
    proof (cases rest)
      case Nil
      then show ?thesis using Cons by (simp add: detectRecursiveStep_def)
    next
      case (Cons argNode rest')
      then show ?thesis using \<open>children callNode = c0 # rest\<close>
        by (simp add: detectRecursiveStep_def step_rule_def extractOperator_def
              extractOperand_def extractOperand_loop_literals literal_operands_def
              split: list.splits)
    qed
  qed
qed

lemma detect_stepInfo_rule:
  assumes "map_of fs rf = Some f"
  shows "detect_stepInfo fs (Some rf) =
     (case first_self_call rf (func_body f) of
        None \<Rightarrow> \<lparr>operator = ''-'', step_value = 1\<rparr>
      | Some callNode \<Rightarrow> step_rule callNode)"
  using assms
  by (auto simp: detect_stepInfo_def findCallNode_preorder(1) detectRecursiveStep_rule
        split: option.splits)

lemma operator_step_rule: "operator (step_rule c) = ''-''"
  by (simp add: step_rule_def split: list.splits)

lemma operator_detect_stepInfo: "operator (detect_stepInfo fs r) = ''-''"
proof (cases r)
  case None
  then show ?thesis by (simp add: detect_stepInfo_def)
next
  case (Some rf)
  show ?thesis
  proof (cases "map_of fs rf")
    case None
    then show ?thesis using Some by (simp add: detect_stepInfo_def)
  next
    case f: (Some f)
    show ?thesis
      unfolding Some detect_stepInfo_rule [OF f]
      by (simp add: operator_step_rule split: option.splits)
  qed
qed

text \<open>
  C5. The operator of the inferred step rule is always \<open>-\<close>. For a call site with at least
  two children the rule is the one the specification words: when the first positional
  argument is a binary-operator node, the operand is the value of its first integer-literal
  child whose spelling parses as a number, and 1 when there is none; when the argument is
  anything else, the rule is \<open>{-, 1}\<close>. One rule is computed per analysis, from the first call
  site of the recursive function's body (depth first) that resolves to the function
  itself, and the whole simulation runs with it.
\<close>

theorem step_rule_inference:
  "operator (detect_stepInfo fs recursiveFunc) = ''-''
   \<and> map_option operator (detectRecursiveStep callNode)
       = (if length (children callNode) < 2 then None else Some ''-'')
   \<and> (first_recursive (analyse a) = Some (rf, f) \<longrightarrow>
        detect_stepInfo (analyse a) (Some rf) =
          (case first_self_call rf (func_body f) of
             None \<Rightarrow> \<lparr>operator = ''-'', step_value = 1\<rparr>
           | Some c \<Rightarrow> step_rule c)
        \<and> simulateRecursion (Some a) maxDepth =
            simulateCall (analyse a) (detect_stepInfo (analyse a) (Some rf)) maxDepth rf
              (case parseInt_num maxDepth of None \<Rightarrow> 5 | Some i \<Rightarrow> i) 0 [] [])"
proof -
  have "detect_stepInfo (analyse a) (Some rf) =
          (case first_self_call rf (func_body f) of
             None \<Rightarrow> \<lparr>operator = ''-'', step_value = 1\<rparr>
           | Some c \<Rightarrow> step_rule c)
        \<and> simulateRecursion (Some a) maxDepth =
            simulateCall (analyse a) (detect_stepInfo (analyse a) (Some rf)) maxDepth rf
              (case parseInt_num maxDepth of None \<Rightarrow> 5 | Some i \<Rightarrow> i) 0 [] []"
    if r: "first_recursive (analyse a) = Some (rf, f)"
    using detect_stepInfo_rule [OF first_recursive_lookup [OF r]] r
    by (simp add: simulateRecursion_def Let_def)
  then show ?thesis
    by (simp add: operator_detect_stepInfo detectRecursiveStep_rule(1) operator_step_rule)
qed


text \<open>
  The call \<^verbatim>\<open>halve(n / 2)\<close> is simulated as \<open>n - 2\<close>.
\<close>

theorem step_rule_inference_witness:
  "first_recursive (analyse halve_ast) = Some (''halve'', halve_record)
   \<and> detect_stepInfo (analyse halve_ast) (Some ''halve'') = \<lparr>operator = ''-'', step_value = 2\<rparr>
   \<and> push_arguments (simulateRecursion (Some halve_ast) (Num 8))
       = [Some (JNum 8), Some (JNum 6), Some (JNum 4), Some (JNum 2), Some (JNum 0)]"
proof -
  have r: "first_recursive (analyse halve_ast) = Some (''halve'', halve_record)"
    by code_simp
  have c: "(case first_self_call ''halve'' (func_body halve_record) of
             None \<Rightarrow> \<lparr>operator = ''-'', step_value = 1\<rparr>
           | Some c \<Rightarrow> step_rule c) = \<lparr>operator = ''-'', step_value = 2\<rparr>"
    by code_simp
  have t: "push_arguments (simulateCall (analyse halve_ast) \<lparr>operator = ''-'', step_value = 2\<rparr>
              (Num 8) ''halve'' 8 0 [] [])
       = [Some (JNum 8), Some (JNum 6), Some (JNum 4), Some (JNum 2), Some (JNum 0)]"
    by code_simp
  show ?thesis
    using step_rule_inference [of "analyse halve_ast" "Some ''halve''" halve_ast halve_ast
        "''halve''" halve_record "Num 8"] r c t
    by simp
qed

subsection \<open>The factorial scenario\<close>

text \<open>
  The claim lists six return values (1, 1, 2, 6, 24, 120) for a trace it says has five pops;
  the five pops carry 1, 2, 6, 24, 120.
\<close>

theorem factorial_returns_counterexample:
  "pop_returns (simulateRecursion (Some factorial_ast) (Num 5))
     \<noteq> [Some (Finite 1), Some (Finite 1), Some (Finite 2), Some (Finite 6), Some (Finite 24),
        Some (Finite 120)]"
  by code_simp

text \<open>
  C3 (as amended). For the factorial tree and \<open>maxDepth = 5\<close> (the starting value), the trace is
  five nested pushes with arguments 5, 4, 3, 2, 1 followed by five pops with arguments
  1, 2, 3, 4, 5, whose return values are 1, 2, 6, 24, 120; and \<open>getRecursiveInfo\<close> returns
  the name \<open>factorial\<close>, the parameters \<open>[n]\<close> and the declaration line.
\<close>

theorem factorial_scenario:
  "map ev_action (simulateRecursion (Some factorial_ast) (Num 5))
     = [Push, Push, Push, Push, Push, Pop, Pop, Pop, Pop, Pop]
   \<and> map (length \<circ> ev_fullStack) (simulateRecursion (Some factorial_ast) (Num 5))
     = [1, 2, 3, 4, 5, 4, 3, 2, 1, 0]
   \<and> push_arguments (simulateRecursion (Some factorial_ast) (Num 5))
     = [Some (JNum 5), Some (JNum 4), Some (JNum 3), Some (JNum 2), Some (JNum 1)]
   \<and> pop_arguments (simulateRecursion (Some factorial_ast) (Num 5))
     = [Some (JNum 1), Some (JNum 2), Some (JNum 3), Some (JNum 4), Some (JNum 5)]
   \<and> pop_returns (simulateRecursion (Some factorial_ast) (Num 5))
     = [Some (Finite 1), Some (Finite 2), Some (Finite 6), Some (Finite 24), Some (Finite 120)]
   \<and> getRecursiveInfo (Some factorial_ast)
     = Some \<lparr>info_name = ''factorial'', info_params = [''n''], info_line = 3\<rparr>"
  by code_simp

end
